theory Spec2Isabelle
  imports Main "HOL-Library.Word" "HOL-Library.List_Lexorder"
begin

unbundle bit_operations_syntax

section \<open>Shuffling utilities (beacon-chain/utils/shuffle.go)\<close>

subsection \<open>Machine types and external helpers\<close>

type_synonym byte = "8 word"

type_synonym uint32 = "32 word"

type_synonym uint64 = "64 word"

text \<open>
  The errors of the package are the two \<open>fmt.Errorf\<close> values of shuffle.go, kept with the
  numbers their messages print, and a run-time panic (an index or a slice bound out of
  range), which Go raises instead of returning.
\<close>

datatype error =
    InputIndexOutOfBounds uint64 uint64
  | ListSizeOutOfBounds nat
  | RuntimePanic

text \<open>The constants of shuffle.go, lines 13 to 19.\<close>

definition seedSize :: nat where "seedSize = 32"

definition roundSize :: nat where "roundSize = 1"

definition positionWindowSize :: nat where "positionWindowSize = 4"

definition pivotViewSize :: nat where "pivotViewSize = seedSize + roundSize"

definition totalSize :: nat where "totalSize = seedSize + roundSize + positionWindowSize"

definition maxShuffleListSize :: uint64 where "maxShuffleListSize = push_bit 40 1"

text \<open>
  Modelled from the spec: \<open>bytesutil.FromBytes8\<close> and \<open>bytesutil.ToBytes\<close> are not among
  the sources. The spec reads the first 8 bytes of the digest "as a 64-bit integer" and
  writes \<open>position >> 8\<close> "as 4-byte field"; the pseudocode quoted in shuffle.go names
  them \<open>bytes_to_int\<close> and \<open>int_to_bytes\<close>, which are little-endian, as the
  \<open>binary.LittleEndian\<close> calls of \<open>innerShuffleList\<close> are.
\<close>

fun FromBytes8 :: "byte list \<Rightarrow> uint64" where
  "FromBytes8 [] = 0"
| "FromBytes8 (b # bs) = ucast b + push_bit 8 (FromBytes8 bs)"

fun le_bytes :: "nat \<Rightarrow> uint64 \<Rightarrow> byte list" where
  "le_bytes 0 x = []"
| "le_bytes (Suc k) x = ucast x # le_bytes k (drop_bit 8 x)"

definition ToBytes :: "uint64 \<Rightarrow> nat \<Rightarrow> byte list" where
  "ToBytes x len = take len (le_bytes (max len 8) x)"

text \<open>
  Go's \<open>copy(dst[off:], src)\<close>: as many bytes as both sides have, written in place.
\<close>

definition copy_at :: "byte list \<Rightarrow> nat \<Rightarrow> byte list \<Rightarrow> byte list" where
  "copy_at dst off src =
     (let k = min (length dst - off) (length src)
      in take off dst @ take k src @ drop (off + k) dst)"

text \<open>
  \<open>binary.LittleEndian.PutUint32(buf[off:], v)\<close> of Go's standard library: four bytes,
  least significant first.
\<close>

definition PutUint32 :: "byte list \<Rightarrow> nat \<Rightarrow> uint32 \<Rightarrow> byte list" where
  "PutUint32 buf off v =
     buf[off := ucast v, off + 1 := ucast (drop_bit 8 v),
         off + 2 := ucast (drop_bit 16 v), off + 3 := ucast (drop_bit 24 v)]"

subsection \<open>ShuffledIndex and UnShuffledIndex\<close>

text \<open>
  One pass of the loop body of \<open>innerShuffledIndex\<close> (lines 88 to 112): the buffer and the
  index before, the buffer and the index after. \<open>H\<close> stands for \<open>hashutil.HashSha256\<close>,
  which returns a \<open>[32]byte\<close>; the byte read from it has an index of at most 31.
\<close>

definition shuffle_round ::
  "(byte list \<Rightarrow> byte list) \<Rightarrow> uint64 \<Rightarrow> byte \<Rightarrow> byte list \<times> uint64 \<Rightarrow> byte list \<times> uint64" where
  "shuffle_round H indexCount round s =
     (let (buf0, index) = s;
          buf1 = buf0[seedSize := round];
          hash = H (take pivotViewSize buf1);
          hash8 = take 8 hash;
          hash8Int = FromBytes8 hash8;
          pivot = hash8Int mod indexCount;
          flip = (pivot + indexCount - index) mod indexCount;
          position = (if flip > index then flip else index);
          position4bytes = ToBytes (drop_bit 8 position) 4;
          buf2 = copy_at buf1 pivotViewSize position4bytes;
          source = H buf2;
          byteV = source ! unat (drop_bit 3 (position AND 0xff));
          bitV = drop_bit (unat (position AND 0x7)) byteV AND 0x1
      in (buf2, if bitV = 1 then flip else index))"

text \<open>
  The \<open>for\<close> loop of lines 87 to 124. \<open>round\<close> and \<open>rounds\<close> are \<open>uint8\<close>: the forward
  loop counts up until \<open>round == rounds\<close>, the backward loop counts down to 0.
\<close>

function shuffle_loop ::
  "(byte list \<Rightarrow> byte list) \<Rightarrow> uint64 \<Rightarrow> byte \<Rightarrow> bool \<Rightarrow> byte \<Rightarrow> byte list \<times> uint64
     \<Rightarrow> byte list \<times> uint64" where
  "shuffle_loop H indexCount rounds shuffle round s =
     (let s' = shuffle_round H indexCount round s
      in if shuffle
         then (if round + 1 = rounds then s'
               else shuffle_loop H indexCount rounds shuffle (round + 1) s')
         else (if round = 0 then s'
               else shuffle_loop H indexCount rounds shuffle (round - 1) s'))"
  by pat_completeness auto
termination
proof (relation "measure (\<lambda>(H, indexCount, rounds, shuffle, round, s).
          if shuffle then unat (rounds - 1 - round) else unat round)", goal_cases)
  case 1
  show ?case by simp
next
  case (2 H indexCount rounds shuffle round s x)
  define d where "d = rounds - 1 - round"
  have nz: "d \<noteq> 0" using 2 by (simp add: d_def algebra_simps)
  have eq: "rounds - round - 2 = d - 1" by (simp add: d_def)
  have "unat (d - 1) < unat d"
    using nz by (simp add: unat_minus_one unat_gt_0)
  then have "unat (rounds - round - 2) < unat (rounds - 1 - round)"
    unfolding eq d_def .
  then show ?case using 2 by simp
next
  case (3 H indexCount rounds shuffle round s x)
  then show ?case by (simp add: unat_minus_one unat_gt_0)
qed

text \<open>
  The buffer both functions allocate and fill with the seed:
  \<open>buf := make([]byte, totalSize, totalSize); copy(buf[:32], seed[:])\<close>.
\<close>

definition seed_buf :: "byte list \<Rightarrow> byte list" where
  "seed_buf seed = copy_at (replicate totalSize 0) 0 (take 32 seed)"

text \<open>
  \<open>innerShuffledIndex\<close>, lines 65 to 126. \<open>ShuffleRoundCount\<close> stands for
  \<open>params.BeaconConfig().ShuffleRoundCount\<close>, a \<open>uint64\<close> of the configuration, and the
  seed is the \<open>[32]byte\<close> argument.
\<close>

definition innerShuffledIndex ::
  "uint64 \<Rightarrow> (byte list \<Rightarrow> byte list) \<Rightarrow> uint64 \<Rightarrow> uint64 \<Rightarrow> byte list \<Rightarrow> bool \<Rightarrow> error + uint64" where
  "innerShuffledIndex ShuffleRoundCount H index indexCount seed shuffle =
     (if ShuffleRoundCount = 0 then Inr index
      else if index \<ge> indexCount then Inl (InputIndexOutOfBounds index indexCount)
      else if indexCount > maxShuffleListSize then Inl (ListSizeOutOfBounds (unat indexCount))
      else
        let rounds = (ucast ShuffleRoundCount :: byte);
            round = (if \<not> shuffle then rounds - 1 else 0);
            buf = seed_buf seed
        in Inr (snd (shuffle_loop H indexCount rounds shuffle round (buf, index))))"

definition ShuffledIndex ::
  "uint64 \<Rightarrow> (byte list \<Rightarrow> byte list) \<Rightarrow> uint64 \<Rightarrow> uint64 \<Rightarrow> byte list \<Rightarrow> error + uint64" where
  "ShuffledIndex ShuffleRoundCount H index indexCount seed =
     innerShuffledIndex ShuffleRoundCount H index indexCount seed True"

definition UnShuffledIndex ::
  "uint64 \<Rightarrow> (byte list \<Rightarrow> byte list) \<Rightarrow> uint64 \<Rightarrow> uint64 \<Rightarrow> byte list \<Rightarrow> error + uint64" where
  "UnShuffledIndex ShuffleRoundCount H index indexCount seed =
     innerShuffledIndex ShuffleRoundCount H index indexCount seed False"

subsection \<open>ShuffleList and UnshuffleList\<close>

text \<open>
  \<open>swapOrNot\<close>, lines 219 to 234. Go returns \<open>(byteV, source)\<close> and leaves its writes in
  the caller's \<open>buf\<close> and \<open>input\<close>; the model returns all four. An index outside
  \<open>input\<close> is Go's run-time panic.
\<close>

definition swapOrNot ::
  "(byte list \<Rightarrow> byte list) \<Rightarrow> byte list \<Rightarrow> byte \<Rightarrow> uint64 \<Rightarrow> uint64 list \<Rightarrow> uint64 \<Rightarrow> byte list
     \<Rightarrow> error + (byte \<times> byte list \<times> byte list \<times> uint64 list)" where
  "swapOrNot H buf byteV i input j source =
     (let (buf1, source1) =
            (if j AND 0xff = 0xff
             then (let b = PutUint32 buf pivotViewSize (ucast (drop_bit 8 j)) in (b, H b))
             else (buf, source));
          byteV1 = (if j AND 0x7 = 0x7 then source1 ! unat (drop_bit 3 (j AND 0xff)) else byteV);
          bitV = drop_bit (unat (j AND 0x7)) byteV1 AND 0x1
      in if bitV = 1
         then (if unat i < length input \<and> unat j < length input
               then Inr (byteV1, source1, buf1,
                         input[unat i := input ! unat j, unat j := input ! unat i])
               else Inl RuntimePanic)
         else Inr (byteV1, source1, buf1, input))"

text \<open>
  The two inner loops of \<open>innerShuffleList\<close> (lines 192 to 194 and 201 to 203):
  \<open>for i, j := ..; i < mirror; i, j = i+1, j-1 { byteV, source = swapOrNot(..) }\<close>.
\<close>

function sweep ::
  "(byte list \<Rightarrow> byte list) \<Rightarrow> uint64 \<Rightarrow> uint64 \<Rightarrow> uint64 \<Rightarrow> byte \<times> byte list \<times> byte list \<times> uint64 list
     \<Rightarrow> error + (byte \<times> byte list \<times> byte list \<times> uint64 list)" where
  "sweep H mirror i j st =
     (if i < mirror
      then (case st of (byteV, source, buf, input) \<Rightarrow>
              (case swapOrNot H buf byteV i input j source of
                 Inl e \<Rightarrow> Inl e
               | Inr st' \<Rightarrow> sweep H mirror (i + 1) (j - 1) st'))
      else Inr st)"
  by pat_completeness auto
termination
proof (relation "measure (\<lambda>(H, mirror, i, j, st). unat mirror - unat i)", goal_cases)
  case 1
  show ?case by simp
next
  case (2 H mirror i j st byteV rest source rest' buf input st')
  have lt: "unat i < unat mirror" using 2(1) by (simp add: word_less_nat_alt)
  have "unat mirror < 2 ^ 64" using unsigned_less [of mirror] by simp
  then have "unat i + 1 < 2 ^ 64" using lt by simp
  then have "unat (i + 1) = unat i + 1"
    using unat_add_lem [of i 1] by simp
  then show ?case using lt by simp
qed

text \<open>
  One pass of the outer loop (lines 185 to 203): the pivot of the round, the sweep over
  \<open>0 .. pivot\<close> and the sweep over \<open>pivot + 1 .. listSize - 1\<close>.
\<close>

definition shuffle_list_round ::
  "(byte list \<Rightarrow> byte list) \<Rightarrow> uint64 \<Rightarrow> byte \<Rightarrow> byte list \<times> uint64 list
     \<Rightarrow> error + (byte list \<times> uint64 list)" where
  "shuffle_list_round H listSize r s =
     (let (buf0, input) = s;
          buf1 = buf0[seedSize := r];
          ph = H (take pivotViewSize buf1);
          pivot = FromBytes8 (take 8 ph) mod listSize;
          mirror = drop_bit 1 (pivot + 1);
          buf2 = PutUint32 buf1 pivotViewSize (ucast (drop_bit 8 pivot));
          source = H buf2;
          byteV = source ! unat (drop_bit 3 (pivot AND 0xff))
      in case sweep H mirror 0 pivot (byteV, source, buf2, input) of
           Inl e \<Rightarrow> Inl e
         | Inr (byteV', source', buf3, input1) \<Rightarrow>
             (let mirror2 = drop_bit 1 (pivot + listSize + 1);
                  end = listSize - 1;
                  buf4 = PutUint32 buf3 pivotViewSize (ucast (drop_bit 8 end));
                  source2 = H buf4;
                  byteV2 = source2 ! unat (drop_bit 3 (end AND 0xff))
              in case sweep H mirror2 (pivot + 1) end (byteV2, source2, buf4, input1) of
                   Inl e \<Rightarrow> Inl e
                 | Inr (byteV3, source3, buf5, input2) \<Rightarrow> Inr (buf5, input2)))"

text \<open>The outer \<open>for\<close> loop, lines 184 to 215, with the same exits as in \<open>innerShuffledIndex\<close>.\<close>

function shuffle_list_loop ::
  "(byte list \<Rightarrow> byte list) \<Rightarrow> uint64 \<Rightarrow> byte \<Rightarrow> bool \<Rightarrow> byte \<Rightarrow> byte list \<times> uint64 list
     \<Rightarrow> error + (byte list \<times> uint64 list)" where
  "shuffle_list_loop H listSize rounds shuffle r s =
     (case shuffle_list_round H listSize r s of
        Inl e \<Rightarrow> Inl e
      | Inr s' \<Rightarrow>
          if shuffle
          then (if r + 1 = rounds then Inr s'
                else shuffle_list_loop H listSize rounds shuffle (r + 1) s')
          else (if r = 0 then Inr s'
                else shuffle_list_loop H listSize rounds shuffle (r - 1) s'))"
  by pat_completeness auto
termination
proof (relation "measure (\<lambda>(H, listSize, rounds, shuffle, r, s).
          if shuffle then unat (rounds - 1 - r) else unat r)", goal_cases)
  case 1
  show ?case by simp
next
  case (2 H listSize rounds shuffle r s s')
  define d where "d = rounds - 1 - r"
  have nz: "d \<noteq> 0" using 2 by (simp add: d_def algebra_simps)
  have eq: "rounds - r - 2 = d - 1" by (simp add: d_def)
  have "unat (d - 1) < unat d"
    using nz by (simp add: unat_minus_one unat_gt_0)
  then have "unat (rounds - r - 2) < unat (rounds - 1 - r)"
    unfolding eq d_def .
  then show ?case using 2 by simp
next
  case (3 H listSize rounds shuffle r s s')
  then show ?case by (simp add: unat_minus_one unat_gt_0)
qed

text \<open>
  \<open>innerShuffleList\<close>, lines 165 to 217. \<open>len(input)\<close> is a Go \<open>int\<close>; the list size
  check is made on its conversion to \<open>uint64\<close>.
\<close>

definition innerShuffleList ::
  "uint64 \<Rightarrow> (byte list \<Rightarrow> byte list) \<Rightarrow> uint64 list \<Rightarrow> byte list \<Rightarrow> bool \<Rightarrow> error + uint64 list" where
  "innerShuffleList ShuffleRoundCount H input seed shuffle =
     (if length input \<le> 1 then Inr input
      else if (of_nat (length input) :: uint64) > maxShuffleListSize
      then Inl (ListSizeOutOfBounds (length input))
      else
        let rounds = (ucast ShuffleRoundCount :: byte)
        in if rounds = 0 then Inr input
           else
             let listSize = (of_nat (length input) :: uint64);
                 buf = seed_buf seed;
                 r = (if \<not> shuffle then rounds - 1 else 0)
             in case shuffle_list_loop H listSize rounds shuffle r (buf, input) of
                  Inl e \<Rightarrow> Inl e
                | Inr (buf', input') \<Rightarrow> Inr input')"

definition ShuffleList ::
  "uint64 \<Rightarrow> (byte list \<Rightarrow> byte list) \<Rightarrow> uint64 list \<Rightarrow> byte list \<Rightarrow> error + uint64 list" where
  "ShuffleList ShuffleRoundCount H input seed = innerShuffleList ShuffleRoundCount H input seed True"

definition UnshuffleList ::
  "uint64 \<Rightarrow> (byte list \<Rightarrow> byte list) \<Rightarrow> uint64 list \<Rightarrow> byte list \<Rightarrow> error + uint64 list" where
  "UnshuffleList ShuffleRoundCount H input seed = innerShuffleList ShuffleRoundCount H input seed False"

subsection \<open>SplitOffset and SplitIndices\<close>

text \<open>\<open>SplitOffset\<close>, lines 137 to 139: \<open>uint64\<close> arithmetic; a zero divisor is Go's panic.\<close>

definition SplitOffset :: "uint64 \<Rightarrow> uint64 \<Rightarrow> uint64 \<Rightarrow> error + uint64" where
  "SplitOffset listSize chunks index =
     (if chunks = 0 then Inl RuntimePanic else Inr ((listSize * index) div chunks))"

text \<open>
  A slice expression \<open>l[start:end]\<close>: Go panics unless \<open>start \<le> end \<le> cap(l)\<close>. The model
  takes the capacity of \<open>l\<close> to be its length.
\<close>

definition slice :: "'a list \<Rightarrow> uint64 \<Rightarrow> uint64 \<Rightarrow> error + 'a list" where
  "slice l start end =
     (if unat start \<le> unat end \<and> unat end \<le> length l
      then Inr (take (unat end - unat start) (drop (unat start) l))
      else Inl RuntimePanic)"

text \<open>\<open>SplitIndices\<close>, lines 22 to 31: the loop from \<open>i\<close> with the pieces appended so far.\<close>

function SplitIndices_loop ::
  "uint64 list \<Rightarrow> uint64 \<Rightarrow> uint64 \<Rightarrow> uint64 list list \<Rightarrow> error + uint64 list list" where
  "SplitIndices_loop l n i divided =
     (if i < n
      then (case SplitOffset (of_nat (length l)) n i of
              Inl e \<Rightarrow> Inl e
            | Inr start \<Rightarrow>
                (case SplitOffset (of_nat (length l)) n (i + 1) of
                   Inl e \<Rightarrow> Inl e
                 | Inr end \<Rightarrow>
                     (case slice l start end of
                        Inl e \<Rightarrow> Inl e
                      | Inr piece \<Rightarrow> SplitIndices_loop l n (i + 1) (divided @ [piece]))))
      else Inr divided)"
  by pat_completeness auto
termination
proof (relation "measure (\<lambda>(l, n, i, divided). unat n - unat i)", goal_cases)
  case 1
  show ?case by simp
next
  case (2 l n i divided start fin piece)
  have lt: "unat i < unat n" using 2(1) by (simp add: word_less_nat_alt)
  have "unat n < 2 ^ 64" using unsigned_less [of n] by simp
  then have "unat i + 1 < 2 ^ 64" using lt by simp
  then have "unat (i + 1) = unat i + 1"
    using unat_add_lem [of i 1] by simp
  then show ?case using lt by simp
qed

definition SplitIndices :: "uint64 list \<Rightarrow> uint64 \<Rightarrow> error + uint64 list list" where
  "SplitIndices l n = SplitIndices_loop l n 0 []"

section \<open>Collaborators modelled from the spec\<close>

subsection \<open>Attestation store\<close>

text \<open>
  Modelled from the spec: the attestation service (beacon-chain/attestation/service.go) is
  not among the sources, only its tests are. An \<open>AttestationRecord\<close> "contains target slot,
  shard, and the hash of the attested block"; the attestation that arrives carries, with
  them, the aggregation bitfield of its committee.
\<close>

record attestation =
  att_slot :: nat
  att_shard :: nat
  att_block_root :: "byte list"
  aggregation_bitfield :: "bool list"

text \<open>
  Modelled from the spec: the Attestation Store is "a single mapping from a fixed-size
  public-key digest (or validator index) to the validator's latest AttestationRecord".
\<close>

type_synonym attestation_store = "byte list \<rightharpoonup> attestation"

text \<open>
  Modelled from the spec: the record of a validator is "created/overwritten on each new
  attestation for a validator if and only if the new attestation's target slot is greater
  than or equal to the currently stored one".
\<close>

definition update_record :: "attestation_store \<Rightarrow> byte list \<Rightarrow> attestation \<Rightarrow> attestation_store" where
  "update_record store key att =
     (case store key of
        None \<Rightarrow> store(key \<mapsto> att)
      | Some cur \<Rightarrow> if att_slot cur \<le> att_slot att then store(key \<mapsto> att) else store)"

text \<open>
  Modelled from the spec: the attesters of an attestation are the committee members whose
  bit is set; "invalid bitfield-to-index mappings (index out of committee bounds) are
  logged as a warning and skipped".
\<close>

definition attester_keys :: "byte list list \<Rightarrow> bool list \<Rightarrow> byte list list" where
  "attester_keys committee bitfield =
     map (\<lambda>i. committee ! i)
       (filter (\<lambda>i. bitfield ! i \<and> i < length committee) [0..<length bitfield])"

text \<open>
  Modelled from the spec: \<open>UpdateLatestAttestation\<close> "resolves attester indices (committee
  membership lookup, bitfield-decoded)" and updates the record of every attesting
  validator. \<open>committee_of\<close> stands for the committee lookup, given as the public keys of
  the committee's members in order.
\<close>

definition UpdateLatestAttestation ::
  "(attestation \<Rightarrow> byte list list) \<Rightarrow> attestation_store \<Rightarrow> attestation \<Rightarrow> attestation_store" where
  "UpdateLatestAttestation committee_of store att =
     fold (\<lambda>key s. update_record s key att)
       (attester_keys (committee_of att) (aggregation_bitfield att)) store"

text \<open>
  Modelled from the spec: \<open>BatchUpdateLatestAttestation\<close> "applies the single-attestation
  update sequentially for a list".
\<close>

definition BatchUpdateLatestAttestation ::
  "(attestation \<Rightarrow> byte list list) \<Rightarrow> attestation_store \<Rightarrow> attestation list \<Rightarrow> attestation_store" where
  "BatchUpdateLatestAttestation committee_of store atts =
     fold (\<lambda>att s. UpdateLatestAttestation committee_of s att) atts store"

text \<open>The validator with public key \<open>key\<close> is among the attesters of \<open>att\<close>.\<close>

definition attests :: "(attestation \<Rightarrow> byte list list) \<Rightarrow> attestation \<Rightarrow> byte list \<Rightarrow> bool" where
  "attests committee_of att key =
     (key \<in> set (attester_keys (committee_of att) (aggregation_bitfield att)))"

subsection \<open>Fork choice: block tree and vote count\<close>

text \<open>
  Modelled from the spec: the errors of the fork choice and replay paths,
  "MissingAncestor / MissingBlock - block-store inconsistency encountered while walking
  ancestry or replaying state", and the "store I/O failures" that are "propagated verbatim
  from the collaborator".
\<close>

datatype chain_error = MissingAncestor | MissingBlock | StoreFailure

text \<open>
  Modelled from the spec: the fork choice (beacon-chain/blockchain/fork_choice.go) is not
  among the sources, only its tests are. A \<open>BlockNode\<close> is "slot number, parent-block root
  hash, self root hash"; the genesis block has no parent. A \<open>VoteTarget\<close>, the "(slot,
  blockRoot, parentRoot)" a validator's latest attestation endorses, has the same three
  fields and is a \<open>BlockNode\<close> here.
\<close>

record BlockNode =
  bn_slot :: nat
  bn_parent :: "byte list option"
  bn_root :: "byte list"

text \<open>
  Modelled from the spec: the block store, as far as the fork choice reads it: the known
  blocks, looked up by root.
\<close>

definition block_by_root :: "BlockNode list \<Rightarrow> byte list \<Rightarrow> BlockNode option" where
  "block_by_root store r = find (\<lambda>b. bn_root b = r) store"

text \<open>
  Modelled from the spec: what the fork choice reads of a beacon state: its slot and the
  effective balance of each validator index.
\<close>

record fc_state =
  fc_slot :: nat
  effective_balance :: "nat \<Rightarrow> nat"

text \<open>
  Modelled from the spec: the ancestor walk "from b up through parent links (via the block
  store) until reaching a block at or below a's slot". It ends with the root reached, with
  nothing when it "reaches a root with no known parent before reaching a's slot", and
  "malformed/disconnected chains (block store missing referenced parents) signal a
  MissingAncestor error"; a parent that is not at a lower slot than its child is such a
  malformed chain. The ancestor cache is left out: "cache content never affects
  correctness, only speed".
\<close>

function ancestor_walk :: "BlockNode list \<Rightarrow> nat \<Rightarrow> BlockNode \<Rightarrow> chain_error + byte list option" where
  "ancestor_walk store slot x =
     (if bn_slot x \<le> slot then Inr (Some (bn_root x))
      else (case bn_parent x of
              None \<Rightarrow> Inr None
            | Some pr \<Rightarrow>
                (case block_by_root store pr of
                   None \<Rightarrow> Inl MissingAncestor
                 | Some p \<Rightarrow>
                     if bn_slot p < bn_slot x then ancestor_walk store slot p
                     else Inl MissingAncestor)))"
  by pat_completeness auto
termination
  by (relation "measure (\<lambda>(store, slot, x). bn_slot x)") auto

text \<open>
  Modelled from the spec: \<open>VoteCount(child, state, voteTargets)\<close>: "if the vote target's
  block root equals or descends from child, that validator's effective balance is added to
  child's vote count. Validators with no recorded vote target are ignored"; a
  \<open>MissingAncestor\<close> is "propagated up, not silently ignored". The vote targets are the
  recorded pairs of validator index and target.
\<close>

fun VoteCount ::
  "BlockNode list \<Rightarrow> BlockNode \<Rightarrow> fc_state \<Rightarrow> (nat \<times> BlockNode) list \<Rightarrow> chain_error + nat" where
  "VoteCount store child st [] = Inr 0"
| "VoteCount store child st ((v, t) # targets) =
     (case ancestor_walk store (bn_slot child) t of
        Inl e \<Rightarrow> Inl e
      | Inr a \<Rightarrow>
          (case VoteCount store child st targets of
             Inl e \<Rightarrow> Inl e
           | Inr n \<Rightarrow> Inr ((if a = Some (bn_root child) then effective_balance st v else 0) + n)))"

text \<open>
  The block with root \<open>r\<close> is \<open>x\<close> itself or an ancestor of \<open>x\<close> through the parent links of
  the store: \<open>x\<close> equals or descends from that block.
\<close>

inductive descends :: "BlockNode list \<Rightarrow> BlockNode \<Rightarrow> byte list \<Rightarrow> bool" where
  self: "descends store x (bn_root x)"
| up: "bn_parent x = Some pr \<Longrightarrow> block_by_root store pr = Some p \<Longrightarrow> descends store p r
       \<Longrightarrow> descends store x r"

text \<open>
  A well-formed node: its parent, when the store has it, is at a lower slot. A well-formed
  tree: every block of the store is well-formed.
\<close>

definition wf_node :: "BlockNode list \<Rightarrow> BlockNode \<Rightarrow> bool" where
  "wf_node store x =
     (case bn_parent x of
        None \<Rightarrow> True
      | Some pr \<Rightarrow> (case block_by_root store pr of None \<Rightarrow> True | Some p \<Rightarrow> bn_slot p < bn_slot x))"

definition wf_tree :: "BlockNode list \<Rightarrow> bool" where
  "wf_tree store = list_all (wf_node store) store"


text \<open>
  The chain is connected above a slot: each of the given blocks that lies above the slot
  and names a parent has that parent in the store. These are the parents an ancestor walk
  down to the slot looks up.
\<close>

definition parents_known :: "BlockNode list \<Rightarrow> nat \<Rightarrow> BlockNode list \<Rightarrow> bool" where
  "parents_known store slot xs =
     list_all (\<lambda>x. bn_slot x \<le> slot
                 \<or> (case bn_parent x of None \<Rightarrow> True | Some pr \<Rightarrow> block_by_root store pr \<noteq> None)) xs"

subsection \<open>Fork choice: LMD-GHOST\<close>

text \<open>
  Modelled from the spec: the children of a block are the "blocks in the store whose
  parentBlockRoot equals the current block's root, restricted to slots at or below the
  state's current slot".
\<close>

definition BlockChildren :: "BlockNode list \<Rightarrow> BlockNode \<Rightarrow> nat \<Rightarrow> BlockNode list" where
  "BlockChildren store block highestSlot =
     filter (\<lambda>b. bn_parent b = Some (bn_root block) \<and> bn_slot b \<le> highestSlot) store"

text \<open>
  Modelled from the spec: "for each candidate child, compute VoteCount(child, state,
  voteTargets)"; the first failing count fails the whole step.
\<close>

fun count_children ::
  "BlockNode list \<Rightarrow> fc_state \<Rightarrow> (nat \<times> BlockNode) list \<Rightarrow> BlockNode list
     \<Rightarrow> chain_error + (BlockNode \<times> nat) list" where
  "count_children store st targets [] = Inr []"
| "count_children store st targets (c # cs) =
     (case VoteCount store c st targets of
        Inl e \<Rightarrow> Inl e
      | Inr n \<Rightarrow>
          (case count_children store st targets cs of
             Inl e \<Rightarrow> Inl e
           | Inr rest \<Rightarrow> Inr ((c, n) # rest)))"

text \<open>
  Modelled from the spec: "select the child with the strictest-greatest vote count;
  tie-break deterministically (e.g., lexicographically smallest root)". A candidate
  replaces the best child so far when it has more votes, or as many and a smaller root.
\<close>

definition better :: "BlockNode \<times> nat \<Rightarrow> BlockNode \<times> nat \<Rightarrow> bool" where
  "better x y = (snd y < snd x \<or> (snd x = snd y \<and> bn_root (fst x) < bn_root (fst y)))"

fun best_child :: "BlockNode \<times> nat \<Rightarrow> (BlockNode \<times> nat) list \<Rightarrow> BlockNode \<times> nat" where
  "best_child best [] = best"
| "best_child best (x # xs) = best_child (if better x best then x else best) xs"

text \<open>
  Modelled from the spec: the descent of LMD-GHOST: "if there are no children (current
  block is a leaf), terminate: current block is the new head. Otherwise, recurse from the
  winning child". The descent need not end on a store whose parent links form a cycle, so
  not returning is the value \<open>None\<close>.
\<close>

partial_function (option) lmd_ghost ::
  "BlockNode list \<Rightarrow> fc_state \<Rightarrow> (nat \<times> BlockNode) list \<Rightarrow> BlockNode
     \<Rightarrow> (chain_error + BlockNode) option" where
  "lmd_ghost store st targets head =
     (case count_children store st targets (BlockChildren store head (fc_slot st)) of
        Inl e \<Rightarrow> Some (Inl e)
      | Inr [] \<Rightarrow> Some (Inr head)
      | Inr (x # xs) \<Rightarrow> lmd_ghost store st targets (fst (best_child x xs)))"

subsection \<open>Fork choice: justified and finalized checkpoints\<close>

text \<open>
  Modelled from the spec: what \<open>updateFFGCheckPts\<close> reads of a beacon state: its slot, its
  current justified epoch and its finalized epoch.
\<close>

record ffg_state =
  ffg_slot :: nat
  current_justified_epoch :: nat
  finalized_epoch :: nat

text \<open>
  Modelled from the spec: a checkpoint (justified or finalized) is "a (slot, state, block)
  triple persisted to the store".
\<close>

record checkpoint =
  cp_slot :: nat
  cp_state :: ffg_state
  cp_block :: BlockNode

text \<open>
  Modelled from the spec: the store \<open>updateFFGCheckPts\<close> works on: the canonical chain's
  block of each slot (none at a skip slot), the saved state of each slot, and the two
  persisted checkpoints.
\<close>

record ffg_db =
  canonical :: "nat \<Rightarrow> BlockNode option"
  historical :: "nat \<Rightarrow> ffg_state option"
  justified :: checkpoint
  finalized :: checkpoint

text \<open>
  Modelled from the spec: the "epoch-to-slot conversion" and its converse, with the number
  of slots of an epoch a parameter of the configuration (64 in the tests).
\<close>

definition start_slot :: "nat \<Rightarrow> nat \<Rightarrow> nat" where
  "start_slot slotsPerEpoch epoch = epoch * slotsPerEpoch"

definition epoch_of :: "nat \<Rightarrow> nat \<Rightarrow> nat" where
  "epoch_of slotsPerEpoch slot = slot div slotsPerEpoch"

text \<open>
  Modelled from the spec: the "last available block at or before that slot" resolution,
  "walking backward through the canonical chain": the slot found and its block, or nothing
  when no slot down to 0 has a block.
\<close>

fun last_available :: "(nat \<Rightarrow> BlockNode option) \<Rightarrow> nat \<Rightarrow> (nat \<times> BlockNode) option" where
  "last_available chain 0 = (case chain 0 of None \<Rightarrow> None | Some b \<Rightarrow> Some (0, b))"
| "last_available chain (Suc s) =
     (case chain (Suc s) of None \<Rightarrow> last_available chain s | Some b \<Rightarrow> Some (Suc s, b))"

text \<open>
  Modelled from the spec: the checkpoint resolved for an epoch: the last available block
  at or before the epoch's start slot, with the saved state of that block's slot. A chain
  with no block there is a \<open>MissingBlock\<close>; a state the store does not have is its failure.
\<close>

definition resolve_checkpoint :: "nat \<Rightarrow> ffg_db \<Rightarrow> nat \<Rightarrow> chain_error + checkpoint" where
  "resolve_checkpoint slotsPerEpoch db epoch =
     (case last_available (canonical db) (start_slot slotsPerEpoch epoch) of
        None \<Rightarrow> Inl MissingBlock
      | Some (s, b) \<Rightarrow>
          (case historical db s of
             None \<Rightarrow> Inl StoreFailure
           | Some hs \<Rightarrow> Inr \<lparr>cp_slot = s, cp_state = hs, cp_block = b\<rparr>))"

text \<open>
  Modelled from the spec: \<open>updateFFGCheckPts\<close>: "if the state's current-justified-epoch
  exceeds the previously stored justified checkpoint's epoch, the new justified
  block/state overwrite the stored checkpoint. Independently, if the finalized epoch in
  state exceeds the stored finalized checkpoint's epoch, finalized block/state are
  overwritten".
\<close>

definition updateFFGCheckPts :: "nat \<Rightarrow> ffg_db \<Rightarrow> ffg_state \<Rightarrow> chain_error + ffg_db" where
  "updateFFGCheckPts slotsPerEpoch db st =
     (case (if epoch_of slotsPerEpoch (cp_slot (justified db)) < current_justified_epoch st
            then (case resolve_checkpoint slotsPerEpoch db (current_justified_epoch st) of
                    Inl e \<Rightarrow> Inl e
                  | Inr cp \<Rightarrow> Inr (db\<lparr>justified := cp\<rparr>))
            else Inr db) of
        Inl e \<Rightarrow> Inl e
      | Inr db1 \<Rightarrow>
          if epoch_of slotsPerEpoch (cp_slot (finalized db1)) < finalized_epoch st
          then (case resolve_checkpoint slotsPerEpoch db1 (finalized_epoch st) of
                  Inl e \<Rightarrow> Inl e
                | Inr cp \<Rightarrow> Inr (db1\<lparr>finalized := cp\<rparr>))
          else Inr db1)"

text \<open>
  Modelled from the spec: what happens to the store over time. Between the calls of
  \<open>updateFFGCheckPts\<close> the program saves blocks and states ("head block/state is persisted
  via the block/state store collaborator"), and the block tree "is append-only": a saved
  block becomes the canonical chain's block of its slot, a saved state the saved state of
  its slot, and nothing is removed. A call that fails leaves the store as it was.
\<close>

datatype ffg_event = SaveBlock BlockNode | SaveState ffg_state | UpdateFFG ffg_state

fun apply_event :: "nat \<Rightarrow> ffg_db \<Rightarrow> ffg_event \<Rightarrow> ffg_db" where
  "apply_event slotsPerEpoch db (SaveBlock b) = db\<lparr>canonical := (canonical db)(bn_slot b \<mapsto> b)\<rparr>"
| "apply_event slotsPerEpoch db (SaveState s) = db\<lparr>historical := (historical db)(ffg_slot s \<mapsto> s)\<rparr>"
| "apply_event slotsPerEpoch db (UpdateFFG st) =
     (case updateFFGCheckPts slotsPerEpoch db st of Inl e \<Rightarrow> db | Inr db' \<Rightarrow> db')"

definition run_events :: "nat \<Rightarrow> ffg_db \<Rightarrow> ffg_event list \<Rightarrow> ffg_db" where
  "run_events slotsPerEpoch db evs = fold (\<lambda>ev d. apply_event slotsPerEpoch d ev) evs db"

subsection \<open>State generator\<close>

text \<open>
  Modelled from the spec: the state generator (blockchain/stategenerator) is not among the
  sources, only its test is. What it reads of the store: "the most recent finalized (or
  otherwise checkpointed) state and its associated slot", the canonical chain's index
  (which block, if any, a slot has) and the blocks by root.
\<close>

record ('st, 'b) replay_db =
  finalized_slot :: nat
  finalized_state :: 'st
  chain_index :: "nat \<Rightarrow> byte list option"
  block_store :: "byte list \<rightharpoonup> 'b"

text \<open>
  Modelled from the spec: "for each slot from startSlot+1 to targetSlot inclusive: look up
  whether a block exists at that slot in the canonical chain; if present, apply the
  state-transition collaborator with that block; if absent (skip slot), apply the no-block
  path"; "any missing intermediate block that the canonical-chain index claims should exist
  is a MissingBlock" error. \<open>advance\<close> stands for the collaborator
  \<open>AdvanceState(ctx, state, block|nil)\<close>; \<open>k\<close> counts the slots still to replay after
  slot \<open>s\<close>.
\<close>

fun replay ::
  "('st \<Rightarrow> 'b option \<Rightarrow> 'st) \<Rightarrow> ('st, 'b) replay_db \<Rightarrow> 'st \<Rightarrow> nat \<Rightarrow> nat \<Rightarrow> chain_error + 'st" where
  "replay advance db st s 0 = Inr st"
| "replay advance db st s (Suc k) =
     (case chain_index db (Suc s) of
        None \<Rightarrow> replay advance db (advance st None) (Suc s) k
      | Some r \<Rightarrow>
          (case block_store db r of
             None \<Rightarrow> Inl MissingBlock
           | Some b \<Rightarrow> replay advance db (advance st (Some b)) (Suc s) k))"

text \<open>
  Modelled from the spec: \<open>GenerateStateFromBlock(ctx, targetSlot)\<close> loads the finalized
  state and replays from its slot up to the target slot.
\<close>

definition GenerateStateFromBlock ::
  "('st \<Rightarrow> 'b option \<Rightarrow> 'st) \<Rightarrow> ('st, 'b) replay_db \<Rightarrow> nat \<Rightarrow> chain_error + 'st" where
  "GenerateStateFromBlock advance db targetSlot =
     replay advance db (finalized_state db) (finalized_slot db) (targetSlot - finalized_slot db)"

text \<open>
  Modelled from the spec: "live, sequential processing of the same block history": from the
  genesis state \<open>g\<close>, one transition per slot, with the block of the slot when it has one.
\<close>

fun live :: "('st \<Rightarrow> 'b option \<Rightarrow> 'st) \<Rightarrow> 'st \<Rightarrow> (nat \<Rightarrow> 'b option) \<Rightarrow> nat \<Rightarrow> 'st" where
  "live advance g history 0 = g"
| "live advance g history (Suc t) = advance (live advance g history t) (history (Suc t))"

text \<open>The block history the store holds: the block of each slot of the canonical chain.\<close>

definition db_history :: "('st, 'b) replay_db \<Rightarrow> nat \<Rightarrow> 'b option" where
  "db_history db s = (case chain_index db s of None \<Rightarrow> None | Some r \<Rightarrow> block_store db r)"

section \<open>Definitions of the proofs\<close>

subsection \<open>The permutation of one round, as a function of the index alone\<close>

text \<open>
  What one pass of the loop does to the index, with the hash inputs written as byte
  strings: the seed, the round byte, and the four bytes of \<open>position >> 8\<close>.
\<close>

definition round_pivot :: "(byte list \<Rightarrow> byte list) \<Rightarrow> byte list \<Rightarrow> uint64 \<Rightarrow> byte \<Rightarrow> uint64" where
  "round_pivot H seed n r = FromBytes8 (take 8 (H (seed @ [r]))) mod n"

definition round_bit :: "(byte list \<Rightarrow> byte list) \<Rightarrow> byte list \<Rightarrow> byte \<Rightarrow> uint64 \<Rightarrow> byte" where
  "round_bit H seed r position =
     drop_bit (unat (position AND 0x7))
       (H (seed @ [r] @ ToBytes (drop_bit 8 position) 4) ! unat (drop_bit 3 (position AND 0xff))) AND 0x1"

definition round_flip :: "(byte list \<Rightarrow> byte list) \<Rightarrow> byte list \<Rightarrow> uint64 \<Rightarrow> byte \<Rightarrow> uint64 \<Rightarrow> uint64" where
  "round_flip H seed n r i = (round_pivot H seed n r + n - i) mod n"

definition round_perm :: "(byte list \<Rightarrow> byte list) \<Rightarrow> byte list \<Rightarrow> uint64 \<Rightarrow> byte \<Rightarrow> uint64 \<Rightarrow> uint64" where
  "round_perm H seed n r i =
     (let flip = round_flip H seed n r i;
          position = (if flip > i then flip else i)
      in if round_bit H seed r position = 1 then flip else i)"

definition rounds_up :: "byte \<Rightarrow> nat \<Rightarrow> byte list" where
  "rounds_up r k = map (\<lambda>j. r + of_nat j) [0..<k]"

definition rounds_down :: "byte \<Rightarrow> nat \<Rightarrow> byte list" where
  "rounds_down r k = map (\<lambda>j. r - of_nat j) [0..<k]"

definition round_list :: "uint64 \<Rightarrow> bool \<Rightarrow> byte list" where
  "round_list rc sh =
     (let k = Suc (unat (ucast rc - 1 :: byte))
      in if sh then rounds_up 0 k else rev (rounds_up 0 k))"

definition cached ::
  "(byte list \<Rightarrow> byte list) \<Rightarrow> byte list \<Rightarrow> byte \<Rightarrow> uint64
     \<Rightarrow> byte \<times> byte list \<times> byte list \<times> uint64 list \<Rightarrow> bool" where
  "cached H seed r j st =
     (case st of (byteV, source, buf, input) \<Rightarrow>
        length buf = 37 \<and> take 33 buf = seed @ [r] \<and>
        (unat j mod 256 \<noteq> 255 \<longrightarrow> source = H (seed @ [r] @ ToBytes (drop_bit 8 j) 4)) \<and>
        (unat j mod 8 \<noteq> 7 \<longrightarrow>
           byteV = H (seed @ [r] @ ToBytes (drop_bit 8 j) 4) ! (unat j mod 256 div 8)))"

definition pair_image :: "(uint64 \<Rightarrow> bool) \<Rightarrow> nat \<Rightarrow> nat \<Rightarrow> nat \<Rightarrow> nat \<Rightarrow> nat" where
  "pair_image b c lo hi k =
     (if (lo \<le> k \<and> k < hi) \<or> (k \<le> c \<and> lo \<le> c - k \<and> c - k < hi)
      then (if b (of_nat (max k (c - k))) then c - k else k)
      else k)"

definition is_bounds_error :: "error + 'a \<Rightarrow> bool" where
  "is_bounds_error res =
     (case res of
        Inl (InputIndexOutOfBounds i n) \<Rightarrow> True
      | Inl (ListSizeOutOfBounds n) \<Rightarrow> True
      | Inl RuntimePanic \<Rightarrow> False
      | Inr v \<Rightarrow> False)"

subsection \<open>Data of the concrete runs\<close>

text \<open>
  A hash function for concrete runs: the digest's first byte is 7 in round 0 and 5 in
  every other round (the round is byte 32 of the input), the other 31 bytes are 0.
\<close>

definition toy_hash :: "byte list \<Rightarrow> byte list" where
  "toy_hash bs = (if bs ! 32 = 0 then 7 else 5) # replicate 31 0"

text \<open>
  A small chain for concrete runs: states and blocks are numbers, a transition doubles the
  state and adds the block; slots 1 and 3 have blocks, slots 2 and 4 are skipped, and the
  finalized state is the one of slot 2.
\<close>

definition demo_advance :: "nat \<Rightarrow> nat option \<Rightarrow> nat" where
  "demo_advance st b = (case b of None \<Rightarrow> 2 * st | Some x \<Rightarrow> 2 * st + x)"

definition demo_db :: "(nat, nat) replay_db" where
  "demo_db =
     \<lparr>finalized_slot = 2, finalized_state = 14,
      chain_index = (\<lambda>s. if s = 1 then Some [1] else if s = 3 then Some [3] else None),
      block_store = [[1] \<mapsto> 5, [3] \<mapsto> 7]\<rparr>"






text \<open>
  The chain of \<open>TestLMDGhost_3WayChainSplitsSameHeight\<close>: block 1 with the children 2, 3
  and 4, the state at slot 10, four validators of balance \<open>32 * 10^9\<close> voting for blocks 2,
  3, 4 and 4.
\<close>

definition split_b1 :: BlockNode where
  "split_b1 = \<lparr>bn_slot = 1, bn_parent = Some [65], bn_root = [1]\<rparr>"

definition split_b2 :: BlockNode where
  "split_b2 = \<lparr>bn_slot = 2, bn_parent = Some [1], bn_root = [2]\<rparr>"

definition split_b3 :: BlockNode where
  "split_b3 = \<lparr>bn_slot = 3, bn_parent = Some [1], bn_root = [3]\<rparr>"

definition split_b4 :: BlockNode where
  "split_b4 = \<lparr>bn_slot = 4, bn_parent = Some [1], bn_root = [4]\<rparr>"

definition split_state :: fc_state where
  "split_state = \<lparr>fc_slot = 10, effective_balance = (\<lambda>v. 32000000000)\<rparr>"

definition split_votes :: "(nat \<times> BlockNode) list" where
  "split_votes = [(0, split_b2), (1, split_b3), (2, split_b4), (3, split_b4)]"

text \<open>
  The chain of \<open>TestLMDGhost_2WayChainSplitsDiffHeight\<close>: block 1 with the branches 2, 4, 6
  and 3, 5, the state at slot 10, one validator voting for block 6 and two for block 5.
\<close>

definition diff_b1 :: BlockNode where
  "diff_b1 = \<lparr>bn_slot = 1, bn_parent = Some [65], bn_root = [1]\<rparr>"

definition diff_b2 :: BlockNode where
  "diff_b2 = \<lparr>bn_slot = 2, bn_parent = Some [1], bn_root = [2]\<rparr>"

definition diff_b3 :: BlockNode where
  "diff_b3 = \<lparr>bn_slot = 3, bn_parent = Some [1], bn_root = [3]\<rparr>"

definition diff_b4 :: BlockNode where
  "diff_b4 = \<lparr>bn_slot = 4, bn_parent = Some [2], bn_root = [4]\<rparr>"

definition diff_b5 :: BlockNode where
  "diff_b5 = \<lparr>bn_slot = 5, bn_parent = Some [3], bn_root = [5]\<rparr>"

definition diff_b6 :: BlockNode where
  "diff_b6 = \<lparr>bn_slot = 6, bn_parent = Some [4], bn_root = [6]\<rparr>"

definition diff_store :: "BlockNode list" where
  "diff_store = [diff_b1, diff_b2, diff_b3, diff_b4, diff_b5, diff_b6]"

definition diff_votes :: "(nat \<times> BlockNode) list" where
  "diff_votes = [(0, diff_b6), (1, diff_b5), (2, diff_b5)]"

text \<open>
  The store of \<open>TestUpdateFFGCheckPts_NewJustifiedSkipSlot\<close>: 64 slots an epoch, the
  genesis block at slot 0 and a block at slot 60, both checkpoints at genesis, and a state
  at slot 64 whose current justified epoch is 1: the start slot 64 of the epoch is a skip
  slot.
\<close>

definition skip_genesis :: BlockNode where
  "skip_genesis = \<lparr>bn_slot = 0, bn_parent = None, bn_root = [0]\<rparr>"

definition skip_block60 :: BlockNode where
  "skip_block60 = \<lparr>bn_slot = 60, bn_parent = Some [0], bn_root = [60]\<rparr>"

definition skip_state0 :: ffg_state where
  "skip_state0 = \<lparr>ffg_slot = 0, current_justified_epoch = 0, finalized_epoch = 0\<rparr>"

definition skip_state60 :: ffg_state where
  "skip_state60 = \<lparr>ffg_slot = 60, current_justified_epoch = 0, finalized_epoch = 0\<rparr>"

definition skip_state64 :: ffg_state where
  "skip_state64 = \<lparr>ffg_slot = 64, current_justified_epoch = 1, finalized_epoch = 0\<rparr>"

definition skip_db :: ffg_db where
  "skip_db =
     \<lparr>canonical = (\<lambda>s. if s = 0 then Some skip_genesis
                        else if s = 60 then Some skip_block60 else None),
      historical = (\<lambda>s. if s = 0 then Some skip_state0
                         else if s = 60 then Some skip_state60 else None),
      justified = \<lparr>cp_slot = 0, cp_state = skip_state0, cp_block = skip_genesis\<rparr>,
      finalized = \<lparr>cp_slot = 0, cp_state = skip_state0, cp_block = skip_genesis\<rparr>\<rparr>"

text \<open>
  The run of \<open>TestUpdateFFGCheckPts_NewFinalizedSlot\<close>: a block is saved at slot 64, with
  the state of slot 64 whose finalized epoch is 1. Later a block and a state are saved at
  slot 100, and a state at slot 128 has the finalized epoch 2, whose start slot 128 is a
  skip slot.
\<close>

definition fin_block64 :: BlockNode where
  "fin_block64 = \<lparr>bn_slot = 64, bn_parent = Some [0], bn_root = [64]\<rparr>"

definition fin_state64 :: ffg_state where
  "fin_state64 = \<lparr>ffg_slot = 64, current_justified_epoch = 0, finalized_epoch = 1\<rparr>"

definition fin_db :: ffg_db where
  "fin_db = run_events 64 skip_db [SaveBlock fin_block64, SaveState fin_state64]"

definition fin_block100 :: BlockNode where
  "fin_block100 = \<lparr>bn_slot = 100, bn_parent = Some [64], bn_root = [100]\<rparr>"

definition fin_state100 :: ffg_state where
  "fin_state100 = \<lparr>ffg_slot = 100, current_justified_epoch = 0, finalized_epoch = 1\<rparr>"

definition fin_state128 :: ffg_state where
  "fin_state128 = \<lparr>ffg_slot = 128, current_justified_epoch = 0, finalized_epoch = 2\<rparr>"

declare shuffle_loop.simps [simp del] sweep.simps [simp del] shuffle_list_loop.simps [simp del]
  SplitIndices_loop.simps [simp del] ancestor_walk.simps [simp del]

section \<open>ShuffledIndex and UnShuffledIndex\<close>

lemma length_le_bytes [simp]: "length (le_bytes k x) = k"
  by (induction k arbitrary: x) simp_all

lemma length_ToBytes4 [simp]: "length (ToBytes x 4) = 4"
  by (simp add: ToBytes_def)

lemma take_Suc_update:
  "k < length xs \<Longrightarrow> take (Suc k) (xs[k := v]) = take k xs @ [v]"
  by (simp add: take_Suc_conv_app_nth)

lemma shuffle_round_eq:
  assumes "length buf = 37"
  shows "\<exists>buf'. shuffle_round H n r (buf, i) = (buf', round_perm H (take 32 buf) n r i)
           \<and> length buf' = 37 \<and> take 32 buf' = take 32 buf"
proof -
  have a: "take 33 (buf[32 := r]) = take 32 buf @ [r]"
    using assms take_Suc_update [of 32 buf r] by simp
  have b: "copy_at (buf[32 := r]) 33 bs = take 32 buf @ [r] @ bs" if "length bs = 4" for bs
    using assms that a by (simp add: copy_at_def)
  show ?thesis
    using assms
    by (simp add: shuffle_round_def Let_def seedSize_def pivotViewSize_def roundSize_def a b
        round_perm_def round_flip_def round_pivot_def round_bit_def)
qed

lemma max_unat: "unat maxShuffleListSize = 2 ^ 40"
  by (simp add: maxShuffleListSize_def)

lemma flip_unat:
  fixes pivot n i :: uint64
  assumes "pivot < n" "i < n" "n \<le> maxShuffleListSize"
  shows "unat ((pivot + n - i) mod n) = (unat pivot + unat n - unat i) mod unat n"
proof -
  have n: "unat n \<le> 2 ^ 40" using assms(3) by (simp add: word_le_nat_alt max_unat)
  have p: "unat pivot < unat n" and i: "unat i < unat n"
    using assms by (simp_all add: word_less_nat_alt)
  have "unat pivot + unat n < 2 ^ 64" using n p by simp
  then have s: "unat (pivot + n) = unat pivot + unat n"
    by (simp add: unat_add_lem [THEN iffD1])
  have "i \<le> pivot + n" using s i by (simp add: word_le_nat_alt)
  then have "unat (pivot + n - i) = unat pivot + unat n - unat i"
    by (simp add: unat_sub s)
  then show ?thesis by (simp add: unat_mod)
qed

lemma nat_flip_flip:
  fixes p n i :: nat
  assumes "p < n" "i < n"
  shows "(p + n - (p + n - i) mod n) mod n = i"
proof (cases "i \<le> p")
  case True
  then have "(p + n - i) mod n = p - i" using assms
    by (metis add.commute add_diff_assoc less_imp_diff_less mod_add_self1 mod_less)
  then show ?thesis using assms True by simp
next
  case False
  then have "(p + n - i) mod n = p + n - i" using assms by simp
  then show ?thesis using assms False by simp
qed

lemma word_less_pos: "(i :: 'a::len word) < n \<Longrightarrow> 0 < n"
  by (simp add: word_less_nat_alt unat_gt_0 [symmetric])

lemma round_pivot_less: "0 < n \<Longrightarrow> round_pivot H seed n r < n"
  by (simp add: round_pivot_def word_mod_less_divisor)

lemma round_flip_less: "0 < n \<Longrightarrow> round_flip H seed n r i < n"
  by (simp add: round_flip_def word_mod_less_divisor)

lemma round_flip_flip:
  assumes "i < n" "n \<le> maxShuffleListSize"
  shows "round_flip H seed n r (round_flip H seed n r i) = i"
proof -
  let ?p = "round_pivot H seed n r"
  have n0: "0 < n" using assms(1) by (rule word_less_pos)
  have p: "?p < n" using n0 by (rule round_pivot_less)
  have f: "round_flip H seed n r i < n" using n0 by (rule round_flip_less)
  have u: "unat (round_flip H seed n r i) = (unat ?p + unat n - unat i) mod unat n"
    unfolding round_flip_def using p assms by (rule flip_unat)
  have "unat (round_flip H seed n r (round_flip H seed n r i))
      = (unat ?p + unat n - unat (round_flip H seed n r i)) mod unat n"
    using flip_unat [OF p f assms(2)] by (simp add: round_flip_def)
  also have "\<dots> = unat i"
    unfolding u using p assms(1) by (simp add: nat_flip_flip word_less_nat_alt)
  finally show ?thesis by (simp add: word_unat_eq_iff)
qed

lemma round_perm_less: "i < n \<Longrightarrow> round_perm H seed n r i < n"
  using round_flip_less [of n H seed r i] word_less_pos [of i n]
  by (simp add: round_perm_def Let_def)

lemma round_perm_involution:
  assumes "i < n" "n \<le> maxShuffleListSize"
  shows "round_perm H seed n r (round_perm H seed n r i) = i"
proof -
  let ?f = "round_flip H seed n r i"
  have ff: "round_flip H seed n r ?f = i" using assms by (rule round_flip_flip)
  have pos: "(if i > ?f then i else ?f) = (if ?f > i then ?f else i)"
    by auto
  show ?thesis
  proof (cases "round_bit H seed r (if ?f > i then ?f else i) = 1")
    case True
    then have "round_perm H seed n r i = ?f" by (simp add: round_perm_def Let_def)
    moreover have "round_perm H seed n r ?f = i"
      using True by (simp add: round_perm_def [of H seed n r ?f] Let_def ff pos)
    ultimately show ?thesis by simp
  next
    case False
    then have "round_perm H seed n r i = i" by (simp add: round_perm_def Let_def)
    then show ?thesis by simp
  qed
qed

lemma rounds_up_Suc: "rounds_up r (Suc k) = r # rounds_up (r + 1) k"
  unfolding rounds_up_def
  by (simp add: upt_conv_Cons map_Suc_upt [symmetric] add.assoc del: upt_Suc)

lemma rounds_down_Suc: "rounds_down r (Suc k) = r # rounds_down (r - 1) k"
  unfolding rounds_down_def
  by (simp add: upt_conv_Cons map_Suc_upt [symmetric] diff_diff_eq del: upt_Suc)

lemma rounds_down_rev:
  "rounds_down r (Suc (unat r)) = rev (rounds_up 0 (Suc (unat r)))"
proof (rule nth_equalityI)
  show "length (rounds_down r (Suc (unat r))) = length (rev (rounds_up 0 (Suc (unat r))))"
    by (simp add: rounds_down_def rounds_up_def)
next
  fix j assume "j < length (rounds_down r (Suc (unat r)))"
  then have j: "j \<le> unat r" by (simp add: rounds_down_def)
  have "of_nat (unat r - j) = r - (of_nat j :: byte)"
    using j by (simp add: of_nat_diff)
  then show "rounds_down r (Suc (unat r)) ! j = rev (rounds_up 0 (Suc (unat r))) ! j"
    using j by (simp add: rounds_down_def rounds_up_def rev_nth del: upt_Suc)
qed

lemma word_pred_less: "(d :: 'a::len word) \<noteq> 0 \<Longrightarrow> unat (d - 1) < unat d"
  by (simp add: unat_minus_one unat_gt_0)

lemma shuffle_loop_fold:
  assumes "length (fst s) = 37"
  shows "snd (shuffle_loop H n R sh r s) =
     fold (round_perm H (take 32 (fst s)) n)
       (if sh then rounds_up r (Suc (unat (R - 1 - r))) else rounds_down r (Suc (unat r))) (snd s)"
  using assms
proof (induction H n R sh r s rule: shuffle_loop.induct)
  case (1 H n R sh r s)
  obtain buf i where s: "s = (buf, i)" by (cases s)
  obtain buf' where b: "shuffle_round H n r (buf, i) = (buf', round_perm H (take 32 buf) n r i)"
      "length buf' = 37" "take 32 buf' = take 32 buf"
    using shuffle_round_eq [of buf H n r i] 1(3) s by auto
  show ?case
  proof (cases sh)
    case True
    show ?thesis
    proof (cases "r + 1 = R")
      case last: True
      then have "R - 1 - r = 0" by auto
      then show ?thesis using True last s b
        by (simp add: shuffle_loop.simps rounds_up_Suc rounds_up_def)
    next
      case more: False
      then have nz: "R - 1 - r \<noteq> 0" by (auto simp: algebra_simps)
      define d where "d = R - 1 - r"
      have e: "R - r - 2 = d - 1" by (simp add: d_def)
      have "d \<noteq> 0" using nz by (simp add: d_def)
      then have "Suc (unat (d - 1)) = unat d"
        by (simp add: unat_minus_one unat_gt_0)
      then have "Suc (unat (R - r - 2)) = unat (R - 1 - r)"
        unfolding e d_def .
      then show ?thesis
        using True more s b "1.IH"(1) [OF refl True more]
        by (simp add: shuffle_loop.simps rounds_up_Suc [of r])
    qed
  next
    case False
    show ?thesis
    proof (cases "r = 0")
      case last: True
      then show ?thesis using False s b
        by (simp add: shuffle_loop.simps rounds_down_Suc rounds_down_def)
    next
      case more: False
      then have "Suc (unat (r - 1)) = unat r"
        by (simp add: unat_minus_one unat_gt_0)
      then show ?thesis
        using False more s b "1.IH"(2) [OF refl False more]
        by (simp add: shuffle_loop.simps rounds_down_Suc [of r])
    qed
  qed
qed

lemma fold_round_perm_less:
  "i < n \<Longrightarrow> fold (round_perm H seed n) rs i < n"
  by (induction rs arbitrary: i) (simp_all add: round_perm_less)

lemma fold_round_perm_inverse:
  "i < n \<Longrightarrow> n \<le> maxShuffleListSize \<Longrightarrow>
     fold (round_perm H seed n) (rev rs) (fold (round_perm H seed n) rs i) = i"
proof (induction rs arbitrary: i)
  case Nil
  then show ?case by simp
next
  case (Cons r rs)
  have "round_perm H seed n r i < n" using Cons.prems(1) by (rule round_perm_less)
  then have "fold (round_perm H seed n) (rev rs)
      (fold (round_perm H seed n) rs (round_perm H seed n r i)) = round_perm H seed n r i"
    using Cons.prems(2) by (rule Cons.IH)
  then show ?case using Cons.prems by (simp add: round_perm_involution)
qed

lemma length_seed_buf: "length (seed_buf seed) = 37"
  by (simp add: seed_buf_def copy_at_def totalSize_def seedSize_def roundSize_def
      positionWindowSize_def Let_def min_def)

lemma innerShuffledIndex_fold:
  assumes "rc \<noteq> 0" "i < n" "n \<le> maxShuffleListSize"
  shows "innerShuffledIndex rc H i n seed sh =
     Inr (fold (round_perm H (take 32 (seed_buf seed)) n) (round_list rc sh) i)"
  using assms shuffle_loop_fold [of "(seed_buf seed, i)" H n "ucast rc" sh
      "if \<not> sh then ucast rc - 1 else 0"]
  by (simp add: innerShuffledIndex_def Let_def length_seed_buf
      round_list_def rounds_down_rev not_le [symmetric])

text \<open>
  Claim C1 (shuffle invertibility). For every seed, every \<open>indexCount\<close> \<open>n\<close> with
  \<open>0 < n \<le> 2^40\<close> and every index \<open>i < n\<close>, \<open>ShuffledIndex\<close> returns some \<open>j\<close> without
  error and \<open>UnShuffledIndex\<close> of \<open>j\<close> returns \<open>i\<close>, for every configured round count
  \<open>rc\<close> (zero included) and every hash function \<open>H\<close>. The bound \<open>0 < n\<close> follows
  from \<open>i < n\<close>.
\<close>

theorem shuffle_invertible:
  assumes "i < n" "n \<le> maxShuffleListSize"
  shows "\<exists>j. ShuffledIndex rc H i n seed = Inr j \<and> UnShuffledIndex rc H j n seed = Inr i"
proof (cases "rc = 0")
  case True
  then show ?thesis
    by (simp add: ShuffledIndex_def UnShuffledIndex_def innerShuffledIndex_def)
next
  case False
  let ?f = "round_perm H (take 32 (seed_buf seed)) n"
  let ?rs = "rounds_up 0 (Suc (unat (ucast rc - 1 :: byte)))"
  have j: "fold ?f ?rs i < n" using assms(1) by (rule fold_round_perm_less)
  have "ShuffledIndex rc H i n seed = Inr (fold ?f ?rs i)"
    using innerShuffledIndex_fold [OF False assms, of H seed True]
    by (simp add: ShuffledIndex_def round_list_def)
  moreover have "UnShuffledIndex rc H (fold ?f ?rs i) n seed = Inr (fold ?f (rev ?rs) (fold ?f ?rs i))"
    using innerShuffledIndex_fold [OF False j assms(2), of H seed False]
    by (simp add: UnShuffledIndex_def round_list_def)
  ultimately show ?thesis
    using fold_round_perm_inverse [OF assms, of H "take 32 (seed_buf seed)" ?rs] by simp
qed

theorem shuffle_invertible_witness:
  "(3 :: uint64) < 5 \<and> (5 :: uint64) \<le> maxShuffleListSize \<and>
   (\<exists>j. ShuffledIndex 90 (\<lambda>bs. replicate 32 0) 3 5 (replicate 32 7) = Inr j
      \<and> UnShuffledIndex 90 (\<lambda>bs. replicate 32 0) j 5 (replicate 32 7) = Inr 3)"
proof -
  have a: "(3 :: uint64) < 5" by simp
  have b: "(5 :: uint64) \<le> maxShuffleListSize" by (simp add: maxShuffleListSize_def)
  show ?thesis
    using a b shuffle_invertible [OF a b, of 90 "\<lambda>bs. replicate 32 0" "replicate 32 7"]
    by simp
qed

text \<open>
  Claim C10 (zero-round bypass). When the configured round count is zero,
  \<open>ShuffledIndex\<close> and \<open>UnShuffledIndex\<close> return \<open>(index, nil)\<close> for every input, also
  when \<open>index \<ge> indexCount\<close> or \<open>indexCount > 2^40\<close>: the early return of line 66 comes
  before both bounds checks, so neither error is produced.
\<close>

theorem zero_round_bypass:
  "ShuffledIndex 0 H index indexCount seed = Inr index
   \<and> UnShuffledIndex 0 H index indexCount seed = Inr index"
  by (simp add: ShuffledIndex_def UnShuffledIndex_def innerShuffledIndex_def)

section \<open>ShuffleList and UnshuffleList\<close>

lemma ucast_drop_bit_32_8:
  "(ucast (drop_bit k (ucast (x :: uint64) :: uint32)) :: byte) = ucast (drop_bit k x)" if "k \<le> 24"
  using that by (auto intro!: bit_eqI simp add: bit_simps)

lemma ToBytes4: "ToBytes x 4 = [ucast x, ucast (drop_bit 8 x), ucast (drop_bit 16 x), ucast (drop_bit 24 x)]"
  by (simp add: ToBytes_def eval_nat_numeral drop_bit_drop_bit)

lemma update4:
  assumes "length buf = 37"
  shows "buf[33 := a, 34 := b, 35 := c, 36 := d] = take 33 buf @ [a, b, c, d]"
proof (rule nth_equalityI)
  show "length (buf[33 := a, 34 := b, 35 := c, 36 := d]) = length (take 33 buf @ [a, b, c, d])"
    using assms by simp
next
  fix i assume "i < length (buf[33 := a, 34 := b, 35 := c, 36 := d])"
  then have "i < 37" using assms by simp
  then consider "i < 33" | "i = 33" | "i = 34" | "i = 35" | "i = 36" by linarith
  then show "buf[33 := a, 34 := b, 35 := c, 36 := d] ! i = (take 33 buf @ [a, b, c, d]) ! i"
    using assms by cases (simp_all add: nth_append)
qed

lemma ucast_ucast_64_32_8: "(ucast (ucast (x :: uint64) :: uint32) :: byte) = ucast x"
  by (auto intro!: bit_eqI simp add: bit_simps)

lemma PutUint32_eq:
  assumes "length buf = 37"
  shows "PutUint32 buf pivotViewSize (ucast (x :: uint64)) = take 33 buf @ ToBytes x 4"
  using update4 [OF assms]
  by (simp add: PutUint32_def pivotViewSize_def seedSize_def roundSize_def ToBytes4
      ucast_drop_bit_32_8 ucast_ucast_64_32_8)

lemma unat_and_ff: "unat ((x :: uint64) AND 0xff) = unat x mod 256"
proof -
  have "x AND 0xff = take_bit 8 x" by (simp add: take_bit_eq_mask mask_eq_exp_minus_1)
  then have "unat (x AND 0xff) = take_bit 8 (unat x)" by (simp only: unsigned_take_bit_eq)
  then show ?thesis by (simp only: take_bit_eq_mod) simp
qed

lemma unat_and_7: "unat ((x :: uint64) AND 0x7) = unat x mod 8"
proof -
  have "x AND 0x7 = take_bit 3 x" by (simp add: take_bit_eq_mask mask_eq_exp_minus_1)
  then have "unat (x AND 0x7) = take_bit 3 (unat x)" by (simp only: unsigned_take_bit_eq)
  then show ?thesis by (simp only: take_bit_eq_mod) simp
qed

lemma unat_drop: "unat (drop_bit k (x :: uint64)) = unat x div 2 ^ k"
  unfolding unat_drop_bit_eq by (rule drop_bit_eq_div)

lemma nat_succ_same_window:
  fixes m d :: nat
  assumes "m mod d \<noteq> d - 1" "0 < d"
  shows "(m + 1) div d = m div d"
proof -
  have "m mod d < d" using assms(2) by simp
  then have lt: "m mod d + 1 < d" using assms(1) by linarith
  have "(m + 1) div d = ((m mod d + 1) + (m div d) * d) div d"
    by (rule arg_cong [where f = "\<lambda>x. x div d"]) simp
  also have "\<dots> = m div d + (m mod d + 1) div d"
    using assms(2) by (simp only: div_mult_self1)
  also have "\<dots> = m div d" using lt by simp
  finally show ?thesis .
qed

lemma pred_same_window:
  fixes j :: uint64
  assumes "unat (j - 1) mod 2 ^ k \<noteq> 2 ^ k - 1" "j \<noteq> 0"
  shows "unat j div 2 ^ k = unat (j - 1) div 2 ^ k"
proof -
  have m: "unat j = unat (j - 1) + 1" using assms(2) by (simp add: unat_minus_one unat_gt_0)
  show ?thesis unfolding m using assms(1) by (simp add: nat_succ_same_window del: One_nat_def)
qed

lemma and_ff_iff: "(j :: uint64) AND 0xff = 0xff \<longleftrightarrow> unat j mod 256 = 255"
  by (simp add: word_unat_eq_iff unat_and_ff)

lemma and_7_iff: "(j :: uint64) AND 0x7 = 0x7 \<longleftrightarrow> unat j mod 8 = 7"
  by (simp add: word_unat_eq_iff unat_and_7)

lemma byte_index: "unat (drop_bit 3 ((j :: uint64) AND 0xff)) = unat j mod 256 div 8"
  by (simp only: unat_drop unat_and_ff) simp

lemma byte_index2: "unat (drop_bit 3 (j :: uint64) AND 31) = unat j mod 256 div 8"
proof -
  have "drop_bit 3 j AND 31 = drop_bit 3 (j AND 0xff)" by simp
  then show ?thesis by (simp only: byte_index)
qed

lemma pred_window_word:
  fixes j :: uint64
  assumes "unat (j - 1) mod 2 ^ k \<noteq> 2 ^ k - 1" "(2 ^ 64 - 1 :: nat) mod 2 ^ k = 2 ^ k - 1"
  shows "drop_bit k (j - 1) = drop_bit k j"
proof -
  have "j \<noteq> 0"
  proof
    assume "j = 0"
    then have "unat (j - 1) = 2 ^ 64 - 1"
      by (simp add: unsigned_minus_1_eq_mask mask_eq_exp_minus_1)
    then show False using assms by simp
  qed
  then have "unat j div 2 ^ k = unat (j - 1) div 2 ^ k"
    using assms(1) by (rule pred_same_window [rotated])
  then show ?thesis by (simp add: word_unat_eq_iff unat_drop)
qed

lemma pred_window_8:
  "unat ((j :: uint64) - 1) mod 256 \<noteq> 255 \<Longrightarrow> drop_bit 8 (j - 1) = drop_bit 8 j"
  using pred_window_word [of j 8] by simp

lemma pred_window_3:
  "unat ((j :: uint64) - 1) mod 8 \<noteq> 7 \<Longrightarrow> drop_bit 3 (j - 1) = drop_bit 3 j"
  using pred_window_word [of j 3] by simp

lemma pred_cached:
  fixes j :: uint64
  assumes "unat (j - 1) mod 8 \<noteq> 7"
  shows "drop_bit 8 (j - 1) = drop_bit 8 j" "unat (j - 1) mod 256 div 8 = unat j mod 256 div 8"
proof -
  have e: "unat (j - 1) div 8 = unat j div 8"
    using pred_window_3 [OF assms] by (simp add: word_unat_eq_iff unat_drop)
  have d: "x div 256 = x div 8 div 32" "x mod 256 div 8 = x div 8 mod 32" for x :: nat
  proof -
    show "x div 256 = x div 8 div 32" by (simp add: div_mult2_eq [symmetric])
    have "x mod 256 = 8 * (x div 8 mod 32) + x mod 8"
      using mod_mult2_eq [of x 8 32] by simp
    then show "x mod 256 div 8 = x div 8 mod 32" by simp
  qed
  show "drop_bit 8 (j - 1) = drop_bit 8 j"
    using e by (simp add: word_unat_eq_iff unat_drop d(1))
  show "unat (j - 1) mod 256 div 8 = unat j mod 256 div 8"
    using e by (simp only: d(2))
qed

lemma swapOrNot_spec:
  assumes c: "cached H seed r j (byteV, source, buf, input)"
    and i: "unat i < length input" and j: "unat j < length input"
  shows "\<exists>byteV' source' buf'.
     swapOrNot H buf byteV i input j source =
       Inr (byteV', source', buf',
            if round_bit H seed r j = 1
            then input[unat i := input ! unat j, unat j := input ! unat i] else input)
     \<and> (\<forall>input'. cached H seed r (j - 1) (byteV', source', buf', input'))"
proof -
  let ?w = "H (seed @ [r] @ ToBytes (drop_bit 8 j) 4)"
  have len: "length buf = 37" and pre: "take 33 buf = seed @ [r]"
    and src: "unat j mod 256 \<noteq> 255 \<Longrightarrow> source = ?w"
    and bv: "unat j mod 8 \<noteq> 7 \<Longrightarrow> byteV = ?w ! (unat j mod 256 div 8)"
    using c by (simp_all add: cached_def)
  define buf1 where "buf1 = (if j AND 0xff = 0xff then PutUint32 buf pivotViewSize (ucast (drop_bit 8 j)) else buf)"
  define source1 where "source1 = (if j AND 0xff = 0xff then H buf1 else source)"
  define byteV1 where "byteV1 = (if j AND 0x7 = 0x7 then source1 ! unat (drop_bit 3 (j AND 0xff)) else byteV)"
  have put: "PutUint32 buf pivotViewSize (ucast (drop_bit 8 j)) = seed @ [r] @ ToBytes (drop_bit 8 j) 4"
    using PutUint32_eq [OF len, of "drop_bit 8 j"] pre by simp
  have "length (take 33 buf) = length (seed @ [r])" using pre by simp
  then have ls: "length seed = 32" using len by simp
  have len1: "length buf1 = 37" and pre1: "take 33 buf1 = seed @ [r]"
    using len pre put ls by (auto simp: buf1_def)
  have s1: "source1 = ?w"
    using src put by (auto simp: source1_def buf1_def and_ff_iff)
  have b1: "byteV1 = ?w ! (unat j mod 256 div 8)"
    using bv s1 by (auto simp: byteV1_def and_7_iff byte_index2)
  have bit: "drop_bit (unat (j AND 0x7)) byteV1 AND 0x1 = round_bit H seed r j"
    by (simp add: b1 round_bit_def byte_index2)
  have run: "swapOrNot H buf byteV i input j source =
       Inr (byteV1, source1, buf1,
            if round_bit H seed r j = 1
            then input[unat i := input ! unat j, unat j := input ! unat i] else input)"
    using i j bit
    by (simp add: swapOrNot_def Let_def buf1_def source1_def byteV1_def split: if_splits)
  have "cached H seed r (j - 1) (byteV1, source1, buf1, input')" for input'
    using len1 pre1 s1 b1 pred_window_8 [of j] pred_cached [of j]
    by (auto simp: cached_def)
  then show ?thesis using run by blast
qed

lemma pair_image_empty: "pair_image b c m m k = k"
  by (simp add: pair_image_def)

lemma pair_image_step:
  assumes "i < j" "i + j = c" "j < length L" "i < m" "2 * m \<le> c + 1" "k < length L"
  shows "(if b (of_nat j) then L[i := L ! j, j := L ! i] else L) ! pair_image b c (Suc i) m k
       = L ! pair_image b c i m k"
proof -
  have jm: "m \<le> j" using assms by linarith
  consider "k = i" | "k = j" | "k \<noteq> i" "k \<noteq> j" by blast
  then show ?thesis
  proof cases
    case 1
    have "pair_image b c (Suc i) m k = i" using 1 assms jm by (auto simp: pair_image_def)
    moreover have "pair_image b c i m k = (if b (of_nat j) then j else i)"
      using 1 assms jm by (auto simp: pair_image_def max_def)
    ultimately show ?thesis using assms by simp
  next
    case 2
    have "pair_image b c (Suc i) m k = j" using 2 assms jm by (auto simp: pair_image_def)
    moreover have "pair_image b c i m k = (if b (of_nat j) then i else j)"
      using 2 assms jm by (auto simp: pair_image_def max_def)
    ultimately show ?thesis using assms by simp
  next
    case 3
    have e: "pair_image b c (Suc i) m k = pair_image b c i m k"
      using 3 assms by (auto simp: pair_image_def)
    have "pair_image b c i m k \<noteq> i" "pair_image b c i m k \<noteq> j"
      using 3 assms by (auto simp: pair_image_def split: if_splits)
    then show ?thesis using e by simp
  qed
qed

lemma pair_image_round:
  assumes "p < n" "k < n" "p \<le> 2 * m1" "2 * m1 \<le> p + 1" "p + n \<le> 2 * m2" "2 * m2 \<le> p + n + 1"
  shows "pair_image b p 0 m1 (pair_image b (p + n) (Suc p) m2 k)
       = (let f = (if k \<le> p then p - k else p + n - k)
          in if b (of_nat (max k f)) then f else k)"
proof (cases "k \<le> p")
  case True
  have "pair_image b (p + n) (Suc p) m2 k = k"
    using True assms by (auto simp: pair_image_def)
  moreover have "pair_image b p 0 m1 k = (if b (of_nat (max k (p - k))) then p - k else k)"
  proof (cases "k < m1 \<or> p - k < m1")
    case True
    then show ?thesis using \<open>k \<le> p\<close> by (auto simp: pair_image_def)
  next
    case False
    then have "p - k = k" using \<open>k \<le> p\<close> assms by linarith
    then show ?thesis by (simp add: pair_image_def)
  qed
  ultimately show ?thesis using True by (simp add: Let_def)
next
  case False
  let ?v = "pair_image b (p + n) (Suc p) m2 k"
  have v: "?v = (if b (of_nat (max k (p + n - k))) then p + n - k else k)"
  proof (cases "k < m2 \<or> p + n - k < m2")
    case True
    then show ?thesis using False assms by (auto simp: pair_image_def)
  next
    case nomid: False
    then have "p + n - k = k" using False assms by linarith
    then show ?thesis by (simp add: pair_image_def)
  qed
  have "p < ?v" using v False assms by auto
  then have "pair_image b p 0 m1 ?v = ?v" using assms by (auto simp: pair_image_def)
  then show ?thesis using v False by (simp add: Let_def)
qed

lemma sweep_spec:
  assumes "cached H seed r j st"
    and "unat i + unat j = c" and "unat i \<le> unat mirror" and "2 * unat mirror \<le> c + 1"
    and "unat j < length (snd (snd (snd st)))"
  shows "\<exists>byteV' source' buf' L'.
     sweep H mirror i j st = Inr (byteV', source', buf', L')
     \<and> length buf' = 37 \<and> take 33 buf' = seed @ [r]
     \<and> length L' = length (snd (snd (snd st)))
     \<and> (\<forall>k < length L'. L' ! k =
           snd (snd (snd st)) ! pair_image (\<lambda>x. round_bit H seed r x = 1) c (unat i) (unat mirror) k)"
  using assms
proof (induction H mirror i j st rule: sweep.induct)
  case (1 H mirror i j st)
  obtain byteV source buf L where st: "st = (byteV, source, buf, L)"
    by (cases st) auto
  let ?b = "\<lambda>x. round_bit H seed r x = 1"
  show ?case
  proof (cases "i < mirror")
    case False
    then have "unat i = unat mirror" using "1.prems"(3) by (simp add: word_less_nat_alt)
    then show ?thesis
      using False "1.prems"(1) st
      by (simp add: sweep.simps [of H mirror i j] pair_image_empty cached_def)
  next
    case True
    then have im: "unat i < unat mirror" by (simp add: word_less_nat_alt)
    have ij: "unat i < unat j" using im "1.prems"(2,4) by linarith
    have jl: "unat j < length L" using "1.prems"(5) st by simp
    have il: "unat i < length L" using ij jl by simp
    have "unat mirror < 2 ^ 64" using unsigned_less [of mirror] by simp
    then have "unat i + 1 < 2 ^ 64" using im by simp
    then have i1: "unat (i + 1) = Suc (unat i)" using unat_add_lem [of i 1] by simp
    have "j \<noteq> 0" using ij by (auto simp: unat_gt_0 [symmetric])
    then have j1: "unat (j - 1) = unat j - 1" by (simp add: unat_minus_one)
    let ?L1 = "if ?b j then L[unat i := L ! unat j, unat j := L ! unat i] else L"
    obtain byteV1 source1 buf1 where
      sw: "swapOrNot H buf byteV i L j source = Inr (byteV1, source1, buf1, ?L1)"
      and c1: "cached H seed r (j - 1) (byteV1, source1, buf1, ?L1)"
      using swapOrNot_spec [OF "1.prems"(1) [unfolded st] il jl] by blast
    have len1: "length ?L1 = length L" by simp
    obtain byteV' source' buf' L' where
      res: "sweep H mirror (i + 1) (j - 1) (byteV1, source1, buf1, ?L1) = Inr (byteV', source', buf', L')"
      and inv: "length buf' = 37" "take 33 buf' = seed @ [r]" "length L' = length L"
      and img: "\<forall>k < length L'. L' ! k = ?L1 ! pair_image ?b c (Suc (unat i)) (unat mirror) k"
    proof -
      have a: "unat (i + 1) + unat (j - 1) = c" using i1 j1 ij "1.prems"(2) by simp
      have b: "unat (i + 1) \<le> unat mirror" using i1 im by simp
      have d: "unat (j - 1) < length (snd (snd (snd (byteV1, source1, buf1, ?L1))))"
        using j1 jl by simp
      have "\<exists>byteV' source' buf' L'.
          sweep H mirror (i + 1) (j - 1) (byteV1, source1, buf1, ?L1) = Inr (byteV', source', buf', L')
          \<and> length buf' = 37 \<and> take 33 buf' = seed @ [r] \<and> length L' = length L
          \<and> (\<forall>k < length L'. L' ! k = ?L1 ! pair_image ?b c (Suc (unat i)) (unat mirror) k)"
        using "1.IH" [OF True st [symmetric] refl refl sw c1 a b "1.prems"(4) d]
        unfolding i1 snd_conv len1 .
      then show ?thesis
        by (elim exE conjE) (rule that)
    qed
    have "L' ! k = L ! pair_image ?b c (unat i) (unat mirror) k" if "k < length L'" for k
    proof -
      have "?L1 ! pair_image ?b c (Suc (unat i)) (unat mirror) k
          = L ! pair_image ?b c (unat i) (unat mirror) k"
        using pair_image_step [OF ij "1.prems"(2) jl im "1.prems"(4), of k ?b] that inv(3)
        by simp
      then show ?thesis using img that by simp
    qed
    then show ?thesis
      using True st sw res inv by (simp add: sweep.simps [of H mirror i j])
  qed
qed

lemma nat_flip_cases:
  fixes p n k :: nat
  assumes "p < n" "k < n"
  shows "(p + n - k) mod n = (if k \<le> p then p - k else p + n - k)"
proof (cases "k \<le> p")
  case True
  then have "(p + n - k) mod n = p - k" using assms
    by (metis add.commute add_diff_assoc less_imp_diff_less mod_add_self1 mod_less)
  then show ?thesis using True by simp
next
  case False
  then show ?thesis using assms by simp
qed

lemma round_perm_unat:
  assumes "k < unat n" "n \<le> maxShuffleListSize"
  shows "unat (round_perm H seed n r (of_nat k)) =
     (let p = unat (round_pivot H seed n r);
          f = (if k \<le> p then p - k else p + unat n - k)
      in if round_bit H seed r (of_nat (max k f)) = 1 then f else k)"
proof -
  let ?i = "of_nat k :: uint64"
  let ?p = "round_pivot H seed n r"
  let ?f = "round_flip H seed n r ?i"
  have "unat n < 2 ^ 64" using unsigned_less [of n] by simp
  then have k64: "k < 2 ^ 64" using assms(1) by simp
  have ui: "unat ?i = k" using k64 by (simp add: unat_of_nat)
  have i: "?i < n" using assms(1) ui by (simp add: word_less_nat_alt)
  have n0: "0 < n" using i by (rule word_less_pos)
  have p: "?p < n" using n0 by (rule round_pivot_less)
  have uf: "unat ?f = (if k \<le> unat ?p then unat ?p - k else unat ?p + unat n - k)"
    using flip_unat [OF p i assms(2)] nat_flip_cases [of "unat ?p" "unat n" k] p assms(1)
    by (simp add: round_flip_def ui word_less_nat_alt)
  have pos: "(if ?f > ?i then ?f else ?i) = of_nat (max k (unat ?f))"
    by (auto simp: word_less_nat_alt ui max_def not_less)
  show ?thesis
    unfolding round_perm_def Let_def pos
    using uf ui by (simp add: Let_def)
qed

lemma unat_drop1_succ:
  fixes x :: uint64
  assumes "unat x + 1 < 2 ^ 64"
  shows "unat (drop_bit 1 (x + 1)) = (unat x + 1) div 2"
proof -
  have "unat (x + 1) = unat x + 1" using assms unat_add_lem [of x 1] by simp
  then show ?thesis by (simp add: unat_drop)
qed

lemma shuffle_list_round_spec:
  assumes len: "length buf = 37" and seed: "take 32 buf = seed"
    and L: "length L = unat n" and n: "0 < n" "n \<le> maxShuffleListSize"
  shows "\<exists>buf' L'. shuffle_list_round H n r (buf, L) = Inr (buf', L')
     \<and> length buf' = 37 \<and> take 32 buf' = seed \<and> length L' = length L
     \<and> (\<forall>k < length L. L' ! k = L ! unat (round_perm H seed n r (of_nat k)))"
proof -
  let ?b = "\<lambda>x. round_bit H seed r x = 1"
  define pivot where "pivot = round_pivot H seed n r"
  define buf1 where "buf1 = buf[seedSize := r]"
  have ls: "length seed = 32" using len seed by auto
  have len1: "length buf1 = 37" using len by (simp add: buf1_def)
  have pre1: "take 33 buf1 = seed @ [r]"
    using take_Suc_update [of 32 buf r] len seed by (simp add: buf1_def seedSize_def)
  have piv: "FromBytes8 (take 8 (H (take pivotViewSize buf1))) mod n = pivot"
    using pre1 by (simp add: pivot_def round_pivot_def pivotViewSize_def seedSize_def roundSize_def)
  have pn: "pivot < n" unfolding pivot_def using n(1) by (rule round_pivot_less)
  have un: "unat n \<le> 2 ^ 40" using n(2) by (simp add: word_le_nat_alt max_unat)
  have up: "unat pivot < unat n" using pn by (simp add: word_less_nat_alt)
  have n1: "1 \<le> unat n" using n(1) by (simp add: word_less_nat_alt)
  \<comment> \<open>first sweep\<close>
  define buf2 where "buf2 = PutUint32 buf1 pivotViewSize (ucast (drop_bit 8 pivot))"
  have buf2: "buf2 = seed @ [r] @ ToBytes (drop_bit 8 pivot) 4"
    using PutUint32_eq [OF len1, of "drop_bit 8 pivot"] pre1 by (simp add: buf2_def)
  define source where "source = H buf2"
  define byteV where "byteV = source ! unat (drop_bit 3 (pivot AND 0xff))"
  define mirror where "mirror = drop_bit 1 (pivot + 1)"
  have um: "unat mirror = (unat pivot + 1) div 2"
    unfolding mirror_def using up un by (intro unat_drop1_succ) simp
  have c1: "cached H seed r pivot (byteV, source, buf2, L)"
    using ls by (simp add: cached_def buf2 source_def byteV_def byte_index2)
  obtain byteV' source' buf3 L1 where
    s1: "sweep H mirror 0 pivot (byteV, source, buf2, L) = Inr (byteV', source', buf3, L1)"
    and len3: "length buf3 = 37" and pre3: "take 33 buf3 = seed @ [r]"
    and lenL1: "length L1 = length L"
    and img1: "\<forall>k < length L1. L1 ! k = L ! pair_image ?b (unat pivot) 0 (unat mirror) k"
  proof -
    have "\<exists>byteV' source' buf' L'.
       sweep H mirror 0 pivot (byteV, source, buf2, L) = Inr (byteV', source', buf', L')
       \<and> length buf' = 37 \<and> take 33 buf' = seed @ [r] \<and> length L' = length L
       \<and> (\<forall>k < length L'. L' ! k = L ! pair_image ?b (unat pivot) 0 (unat mirror) k)"
      using sweep_spec [OF c1, of 0 "unat pivot" mirror] um up L by simp
    then show ?thesis by (elim exE conjE) (rule that)
  qed
  \<comment> \<open>second sweep\<close>
  define fin where "fin = n - 1"
  define buf4 where "buf4 = PutUint32 buf3 pivotViewSize (ucast (drop_bit 8 fin))"
  have buf4: "buf4 = seed @ [r] @ ToBytes (drop_bit 8 fin) 4"
    using PutUint32_eq [OF len3, of "drop_bit 8 fin"] pre3 by (simp add: buf4_def)
  define source2 where "source2 = H buf4"
  define byteV2 where "byteV2 = source2 ! unat (drop_bit 3 (fin AND 0xff))"
  define mirror2 where "mirror2 = drop_bit 1 (pivot + n + 1)"
  have upn: "unat (pivot + n) = unat pivot + unat n"
    using up un unat_add_lem [of pivot n] by simp
  have um2: "unat mirror2 = (unat pivot + unat n + 1) div 2"
    unfolding mirror2_def using unat_drop1_succ [of "pivot + n"] upn up un by simp
  have "n \<noteq> 0" using n(1) by auto
  then have ufin: "unat fin = unat n - 1"
    by (simp add: fin_def unat_minus_one)
  have up1: "unat (pivot + 1) = Suc (unat pivot)"
    using up un unat_add_lem [of pivot 1] by simp
  have c2: "cached H seed r fin (byteV2, source2, buf4, L1)"
    using ls by (simp add: cached_def buf4 source2_def byteV2_def byte_index2)
  obtain byteV3 source3 buf5 L2 where
    s2: "sweep H mirror2 (pivot + 1) fin (byteV2, source2, buf4, L1) = Inr (byteV3, source3, buf5, L2)"
    and len5: "length buf5 = 37" and pre5: "take 33 buf5 = seed @ [r]"
    and lenL2: "length L2 = length L"
    and img2: "\<forall>k < length L2. L2 ! k =
        L1 ! pair_image ?b (unat pivot + unat n) (Suc (unat pivot)) (unat mirror2) k"
  proof -
    have "\<exists>byteV' source' buf' L'.
       sweep H mirror2 (pivot + 1) fin (byteV2, source2, buf4, L1) = Inr (byteV', source', buf', L')
       \<and> length buf' = 37 \<and> take 33 buf' = seed @ [r] \<and> length L' = length L1
       \<and> (\<forall>k < length L'. L' ! k =
             L1 ! pair_image ?b (unat pivot + unat n) (unat (pivot + 1)) (unat mirror2) k)"
      using sweep_spec [OF c2, of "pivot + 1" "unat pivot + unat n" mirror2]
        um2 up up1 ufin n1 L lenL1 by simp
    then show ?thesis unfolding up1 lenL1 by (elim exE conjE) (rule that)
  qed
  have take5: "take 32 buf5 = seed"
  proof -
    have "take 32 (take 33 buf5) = take 32 (seed @ [r])" using pre5 by simp
    then show ?thesis using ls by simp
  qed
  have run: "shuffle_list_round H n r (buf, L) = Inr (buf5, L2)"
    using piv s1 s2
    by (simp add: shuffle_list_round_def Let_def buf1_def buf2_def source_def byteV_def
        mirror_def fin_def buf4_def source2_def byteV2_def mirror2_def)
  have "L2 ! k = L ! unat (round_perm H seed n r (of_nat k))" if "k < length L" for k
  proof -
    have kn: "k < unat n" using that L by simp
    let ?v = "pair_image ?b (unat pivot + unat n) (Suc (unat pivot)) (unat mirror2) k"
    have vlt: "?v < length L1"
      using kn up L lenL1 um2 by (auto simp: pair_image_def)
    have "L2 ! k = L1 ! ?v" using img2 that lenL2 by simp
    also have "\<dots> = L ! pair_image ?b (unat pivot) 0 (unat mirror) ?v"
      using img1 vlt by simp
    also have "pair_image ?b (unat pivot) 0 (unat mirror) ?v
        = unat (round_perm H seed n r (of_nat k))"
      using pair_image_round [of "unat pivot" "unat n" k "unat mirror" "unat mirror2" ?b]
        round_perm_unat [OF kn n(2), of H seed r] up kn um um2
      by (simp add: pivot_def [symmetric] Let_def)
    finally show ?thesis .
  qed
  then show ?thesis using run len5 take5 lenL2 by simp
qed

lemma shuffle_list_loop_spec:
  assumes "length (fst s) = 37" and "take 32 (fst s) = seed"
    and "length (snd s) = unat n" and "0 < n" and "n \<le> maxShuffleListSize"
  shows "\<exists>buf' L'. shuffle_list_loop H n R sh r s = Inr (buf', L')
     \<and> length L' = length (snd s)
     \<and> (\<forall>k < length (snd s). L' ! k = snd s ! unat (fold (round_perm H seed n)
           (rev (if sh then rounds_up r (Suc (unat (R - 1 - r))) else rounds_down r (Suc (unat r))))
           (of_nat k)))"
  using assms
proof (induction H n R sh r s rule: shuffle_list_loop.induct)
  case (1 H n R sh r s)
  obtain buf L where s: "s = (buf, L)" by (cases s)
  let ?f = "round_perm H seed n"
  obtain buf1 L1 where
    rd: "shuffle_list_round H n r (buf, L) = Inr (buf1, L1)"
    and b1: "length buf1 = 37" "take 32 buf1 = seed" and l1: "length L1 = length L"
    and img: "\<forall>k < length L. L1 ! k = L ! unat (?f r (of_nat k))"
    using shuffle_list_round_spec [of buf seed L n H r] "1.prems" s by auto
  have ln: "length L = unat n" using "1.prems"(3) s by simp
  have step: "L' ! k = L ! unat (fold ?f (rev (r # rs)) (of_nat k))"
    if "\<forall>k < length L1. L' ! k = L1 ! unat (fold ?f (rev rs) (of_nat k))" "k < length L"
    for L' rs k
  proof -
    let ?x = "fold ?f (rev rs) (of_nat k)"
    have "unat n < 2 ^ 64" using unsigned_less [of n] by simp
    then have "unat (of_nat k :: uint64) = k" using that(2) ln by (simp add: unat_of_nat)
    then have "(of_nat k :: uint64) < n" using that(2) ln by (simp add: word_less_nat_alt)
    then have "?x < n" by (rule fold_round_perm_less)
    then have x: "unat ?x < length L" using ln by (simp add: word_less_nat_alt)
    have "L' ! k = L1 ! unat ?x" using that l1 by simp
    also have "\<dots> = L ! unat (?f r (of_nat (unat ?x)))" using img x by simp
    finally show ?thesis by simp
  qed
  have one: "L1 ! k = L ! unat (fold ?f (rev [r]) (of_nat k))" if "k < length L" for k
    using img that by simp
  show ?case
  proof (cases sh)
    case True
    show ?thesis
    proof (cases "r + 1 = R")
      case last: True
      then have "R - 1 - r = 0" by auto
      then show ?thesis using True last s rd l1 one
        by (subst shuffle_list_loop.simps) (simp add: rounds_up_Suc rounds_up_def)
    next
      case more: False
      then have nz: "R - 1 - r \<noteq> 0" by (auto simp: algebra_simps)
      define d where "d = R - 1 - r"
      have e: "R - 1 - (r + 1) = d - 1" by (simp add: d_def)
      have "d \<noteq> 0" using nz by (simp add: d_def)
      then have "Suc (unat (d - 1)) = unat d"
        by (simp add: unat_minus_one unat_gt_0)
      then have k: "Suc (unat (R - 1 - r)) = Suc (Suc (unat (R - 1 - (r + 1))))"
        unfolding e d_def by simp
      obtain buf' L' where
        lp: "shuffle_list_loop H n R sh (r + 1) (buf1, L1) = Inr (buf', L')"
        and l': "length L' = length L1"
        and img': "\<forall>k < length L1. L' ! k =
           L1 ! unat (fold ?f (rev (rounds_up (r + 1) (Suc (unat (R - 1 - (r + 1)))))) (of_nat k))"
        using "1.IH"(1) [OF _ True more, of "(buf1, L1)"] s rd b1 l1 ln "1.prems"(4,5) True
        by auto
      have "\<forall>k < length L. L' ! k = L ! unat (fold ?f
          (rev (r # rounds_up (r + 1) (Suc (unat (R - 1 - (r + 1)))))) (of_nat k))"
        using step [OF img'] by blast
      then show ?thesis
        using True more s rd lp l' l1
        unfolding k rounds_up_Suc [of r]
        by (subst shuffle_list_loop.simps) simp
    qed
  next
    case False
    show ?thesis
    proof (cases "r = 0")
      case last: True
      then show ?thesis using False s rd l1 one
        by (subst shuffle_list_loop.simps) (simp add: rounds_down_Suc rounds_down_def)
    next
      case more: False
      then have k: "Suc (unat r) = Suc (Suc (unat (r - 1)))"
        by (simp add: unat_minus_one unat_gt_0)
      obtain buf' L' where
        lp: "shuffle_list_loop H n R sh (r - 1) (buf1, L1) = Inr (buf', L')"
        and l': "length L' = length L1"
        and img': "\<forall>k < length L1. L' ! k =
           L1 ! unat (fold ?f (rev (rounds_down (r - 1) (Suc (unat (r - 1))))) (of_nat k))"
        using "1.IH"(2) [OF _ False more, of "(buf1, L1)"] s rd b1 l1 ln "1.prems"(4,5) False
        by auto
      have "\<forall>k < length L. L' ! k = L ! unat (fold ?f
          (rev (r # rounds_down (r - 1) (Suc (unat (r - 1))))) (of_nat k))"
        using step [OF img'] by blast
      then show ?thesis
        using False more s rd lp l' l1
        unfolding k rounds_down_Suc [of r]
        by (subst shuffle_list_loop.simps) simp
    qed
  qed
qed

lemma innerShuffleList_spec:
  assumes "1 < length L" "length L \<le> 2 ^ 40" "(ucast rc :: byte) \<noteq> 0"
  shows "\<exists>L'. innerShuffleList rc H L seed sh = Inr L' \<and> length L' = length L
     \<and> (\<forall>k < length L. L' ! k = L ! unat (fold
           (round_perm H (take 32 (seed_buf seed)) (of_nat (length L)))
           (rev (round_list rc sh)) (of_nat k)))"
proof -
  let ?n = "of_nat (length L) :: uint64"
  let ?R = "ucast rc :: byte"
  have un: "unat ?n = length L" using assms(2) by (simp add: unat_of_nat)
  have le: "?n \<le> maxShuffleListSize" using assms(2) un by (simp add: word_le_nat_alt max_unat)
  have pos: "0 < ?n" using assms(1) un by (auto simp: word_less_nat_alt)
  obtain buf' L' where
    lp: "shuffle_list_loop H ?n ?R sh (if \<not> sh then ?R - 1 else 0) (seed_buf seed, L) = Inr (buf', L')"
    and l': "length L' = length L"
    and img: "\<forall>k < length L. L' ! k = L ! unat (fold (round_perm H (take 32 (seed_buf seed)) ?n)
           (rev (if sh then rounds_up (if \<not> sh then ?R - 1 else 0)
                               (Suc (unat (?R - 1 - (if \<not> sh then ?R - 1 else 0))))
                 else rounds_down (if \<not> sh then ?R - 1 else 0)
                               (Suc (unat (if \<not> sh then ?R - 1 else 0)))))
           (of_nat k))"
    using shuffle_list_loop_spec [of "(seed_buf seed, L)" "take 32 (seed_buf seed)" ?n H ?R sh
        "if \<not> sh then ?R - 1 else 0"] un le pos
    by (auto simp: length_seed_buf)
  have rl: "(if sh then rounds_up (if \<not> sh then ?R - 1 else 0)
                               (Suc (unat (?R - 1 - (if \<not> sh then ?R - 1 else 0))))
                 else rounds_down (if \<not> sh then ?R - 1 else 0)
                               (Suc (unat (if \<not> sh then ?R - 1 else 0)))) = round_list rc sh"
    by (simp add: round_list_def rounds_down_rev)
  have run: "innerShuffleList rc H L seed sh = Inr L'"
    using assms lp le by (simp add: innerShuffleList_def Let_def not_less [symmetric])
  show ?thesis using run l' img unfolding rl by blast
qed

lemma inner_list_index:
  assumes "1 < n" "n \<le> 2 ^ 40" "rc < 256"
  shows "\<exists>L. innerShuffleList rc H (map of_nat [0..<n]) seed sh = Inr L \<and> length L = n
           \<and> (\<forall>i < n. innerShuffledIndex rc H (of_nat i) (of_nat n) seed (\<not> sh) = Inr (L ! i))"
proof (cases "rc = 0")
  case True
  have "(of_nat n :: uint64) \<le> maxShuffleListSize"
    using assms(2) by (simp add: word_le_nat_alt max_unat unat_of_nat)
  then show ?thesis using True assms(1)
    by (simp add: innerShuffleList_def innerShuffledIndex_def not_less [symmetric])
next
  case False
  let ?N = "of_nat n :: uint64"
  let ?I = "map of_nat [0..<n] :: uint64 list"
  let ?f = "round_perm H (take 32 (seed_buf seed)) ?N"
  have "unat rc < 256" using assms(3) by (simp add: word_less_nat_alt)
  moreover have "unat rc \<noteq> 0" using False by (simp add: unat_eq_0)
  ultimately have R: "(ucast rc :: byte) \<noteq> 0"
    by (simp add: word_unat_eq_iff unsigned_ucast_eq take_bit_eq_mod)
  have un: "unat ?N = n" using assms(2) by (simp add: unat_of_nat)
  have le: "?N \<le> maxShuffleListSize" using assms(2) un by (simp add: word_le_nat_alt max_unat)
  obtain L where run: "innerShuffleList rc H ?I seed sh = Inr L" and len: "length L = n"
    and img: "\<forall>k < n. L ! k = ?I ! unat (fold ?f (rev (round_list rc sh)) (of_nat k))"
    using innerShuffleList_spec [of ?I rc H seed sh] assms(1,2) R
    by auto
  have "innerShuffledIndex rc H (of_nat i) ?N seed (\<not> sh) = Inr (L ! i)" if "i < n" for i
  proof -
    have ui: "unat (of_nat i :: uint64) = i" using that assms(2) by (simp add: unat_of_nat)
    then have lt: "(of_nat i :: uint64) < ?N" using that un by (simp add: word_less_nat_alt)
    let ?x = "fold ?f (rev (round_list rc sh)) (of_nat i)"
    have "?x < ?N" using lt by (rule fold_round_perm_less)
    then have "unat ?x < n" using un by (simp add: word_less_nat_alt)
    then have "?I ! unat ?x = ?x" by simp
    then have "L ! i = ?x" using img that by simp
    moreover have "round_list rc (\<not> sh) = rev (round_list rc sh)"
      by (simp add: round_list_def)
    ultimately show ?thesis
      using innerShuffledIndex_fold [OF False lt le, of H seed "\<not> sh"]
      by simp
  qed
  then show ?thesis using run len by blast
qed

text \<open>
  Claim C2 (list and index shuffle), amended. For every seed, every \<open>n\<close> with
  \<open>1 < n \<le> 2^40\<close> and every configured round count below 256, \<open>ShuffleList\<close> of the
  identity list \<open>[0..n)\<close> returns a list whose entry \<open>i\<close> is \<open>UnShuffledIndex(i, n, seed)\<close>,
  and \<open>UnshuffleList\<close> of it returns a list whose entry \<open>i\<close> is \<open>ShuffledIndex(i, n, seed)\<close>:
  the sweep of a round composes the rounds in the order opposite to the per-index loop.
\<close>

theorem shuffle_list_index:
  assumes "1 < n" "n \<le> 2 ^ 40" "rc < 256"
  shows "(\<exists>L. ShuffleList rc H (map of_nat [0..<n]) seed = Inr L \<and> length L = n
            \<and> (\<forall>i < n. UnShuffledIndex rc H (of_nat i) (of_nat n) seed = Inr (L ! i)))
       \<and> (\<exists>L. UnshuffleList rc H (map of_nat [0..<n]) seed = Inr L \<and> length L = n
            \<and> (\<forall>i < n. ShuffledIndex rc H (of_nat i) (of_nat n) seed = Inr (L ! i)))"
  using inner_list_index [OF assms, of H seed True] inner_list_index [OF assms, of H seed False]
  by (simp add: ShuffleList_def UnshuffleList_def ShuffledIndex_def UnShuffledIndex_def)

theorem shuffle_list_index_witness:
  "(1 :: nat) < 3 \<and> (3 :: nat) \<le> 2 ^ 40 \<and> (2 :: uint64) < 256
   \<and> (\<exists>L. ShuffleList 2 toy_hash (map of_nat [0..<3]) (replicate 32 0) = Inr L \<and> length L = 3
         \<and> (\<forall>i < 3. UnShuffledIndex 2 toy_hash (of_nat i) (of_nat 3) (replicate 32 0) = Inr (L ! i)))
   \<and> (\<exists>L. UnshuffleList 2 toy_hash (map of_nat [0..<3]) (replicate 32 0) = Inr L \<and> length L = 3
         \<and> (\<forall>i < 3. ShuffledIndex 2 toy_hash (of_nat i) (of_nat 3) (replicate 32 0) = Inr (L ! i)))"
proof -
  have a: "(1 :: nat) < 3" "(3 :: nat) \<le> 2 ^ 40" "(2 :: uint64) < 256" by simp_all
  show ?thesis
    using a shuffle_list_index [OF a, of toy_hash "replicate 32 0"] by simp
qed

theorem shuffle_list_index_counterexample:
  "ShuffleList 2 toy_hash (map of_nat [0..<3]) (replicate 32 0) = Inr [2, 0, 1]
   \<and> ShuffledIndex 2 toy_hash 0 3 (replicate 32 0) = Inr 1
   \<and> [2, 0, 1] ! 0 \<noteq> (1 :: uint64)"
  by code_simp

section \<open>SplitOffset and SplitIndices\<close>

lemma SplitOffset_exact:
  assumes "0 < chunks" "unat listSize * unat index < 2 ^ 64"
  shows "\<exists>r. SplitOffset listSize chunks index = Inr r
           \<and> unat r = unat listSize * unat index div unat chunks"
proof -
  have "unat (listSize * index) = unat listSize * unat index"
    using assms(2) unat_mult_lem [of listSize index] by simp
  then show ?thesis using assms(1) by (auto simp: SplitOffset_def unat_div)
qed

lemma take_add_drop: "take a l @ take (b - a) (drop a l) = take b l" if "a \<le> b"
  using that by (metis le_add_diff_inverse take_add)

lemma split_off_mono:
  fixes m n i j :: nat
  assumes "i \<le> j"
  shows "m * i div n \<le> m * j div n"
  using assms by (simp add: div_le_mono)

lemma SplitIndices_loop_spec:
  assumes "0 < n" "length l * unat n < 2 ^ 64" "unat i \<le> unat n"
    and "length divided = unat i"
    and "concat divided = take (length l * unat i div unat n) l"
    and "\<forall>j < unat i. divided ! j =
           take (length l * Suc j div unat n - length l * j div unat n) (drop (length l * j div unat n) l)"
  shows "\<exists>ps. SplitIndices_loop l n i divided = Inr ps \<and> length ps = unat n \<and> concat ps = l
     \<and> (\<forall>j < unat n. ps ! j =
           take (length l * Suc j div unat n - length l * j div unat n) (drop (length l * j div unat n) l))"
  using assms
proof (induction l n i divided rule: SplitIndices_loop.induct)
  case (1 l n i divided)
  let ?m = "length l"
  let ?off = "\<lambda>j. ?m * j div unat n"
  have n0: "0 < unat n" using "1.prems"(1) by (simp add: word_less_nat_alt)
  have ml: "?m < 2 ^ 64"
  proof -
    have "?m \<le> ?m * unat n" using n0 by simp
    then show ?thesis using "1.prems"(2) by linarith
  qed
  have um: "unat (of_nat ?m :: uint64) = ?m" using ml by (simp add: unat_of_nat)
  show ?case
  proof (cases "i < n")
    case False
    then have e: "unat i = unat n" using "1.prems"(3) by (simp add: word_less_nat_alt)
    have "take (?off (unat n)) l = l" using n0 by simp
    then show ?thesis
      using False "1.prems"(4,5,6) e by (subst SplitIndices_loop.simps) simp
  next
    case True
    then have lt: "unat i < unat n" by (simp add: word_less_nat_alt)
    have "unat n < 2 ^ 64" using unsigned_less [of n] by simp
    then have "unat i + 1 < 2 ^ 64" using lt by simp
    then have i1: "unat (i + 1) = Suc (unat i)" using unat_add_lem [of i 1] by simp
    have p1: "?m * unat i < 2 ^ 64"
    proof -
      have "?m * unat i \<le> ?m * unat n" using lt by (intro mult_le_mono2) simp
      then show ?thesis using "1.prems"(2) by (rule le_less_trans)
    qed
    have p2: "?m * Suc (unat i) < 2 ^ 64"
    proof -
      have "?m * Suc (unat i) \<le> ?m * unat n" using lt by (intro mult_le_mono2) simp
      then show ?thesis using "1.prems"(2) by (rule le_less_trans)
    qed
    obtain start where st: "SplitOffset (of_nat ?m) n i = Inr start" and ust: "unat start = ?off (unat i)"
      using SplitOffset_exact [OF "1.prems"(1), of "of_nat ?m" i] p1 um by auto
    obtain fin where en: "SplitOffset (of_nat ?m) n (i + 1) = Inr fin" and uen: "unat fin = ?off (Suc (unat i))"
      using SplitOffset_exact [OF "1.prems"(1), of "of_nat ?m" "i + 1"] p2 um i1 by auto
    have le1: "?off (unat i) \<le> ?off (Suc (unat i))" by (rule split_off_mono) simp
    have "?m * Suc (unat i) \<le> ?m * unat n" using lt by (intro mult_le_mono2) simp
    then have "?off (Suc (unat i)) \<le> ?m * unat n div unat n" by (rule div_le_mono)
    then have le2: "?off (Suc (unat i)) \<le> ?m" using n0 by simp
    let ?piece = "take (?off (Suc (unat i)) - ?off (unat i)) (drop (?off (unat i)) l)"
    have sl: "slice l start fin = Inr ?piece"
      using le1 le2 by (simp add: slice_def ust uen)
    have a: "unat (i + 1) \<le> unat n" using i1 lt by simp
    have b: "length (divided @ [?piece]) = unat (i + 1)" using "1.prems"(4) i1 by simp
    have c: "concat (divided @ [?piece]) = take (?m * unat (i + 1) div unat n) l"
      using "1.prems"(5) take_add_drop [OF le1, of l] by (simp add: i1)
    have d: "\<forall>j < unat (i + 1). (divided @ [?piece]) ! j =
           take (?off (Suc j) - ?off j) (drop (?off j) l)"
      using "1.prems"(4,6) by (auto simp: i1 nth_append less_Suc_eq)
    show ?thesis
      using "1.IH" [OF True st en sl "1.prems"(1,2) a b c d] True st en sl
      by (subst SplitIndices_loop.simps) simp
  qed
qed

text \<open>
  Claim C9 (SplitOffset and SplitIndices), amended. Whenever \<open>chunks > 0\<close>,
  \<open>index \<le> chunks\<close> and the product \<open>listSize * index\<close> fits a \<open>uint64\<close>, \<open>SplitOffset\<close>
  returns \<open>floor (listSize * index / chunks)\<close>. Whenever \<open>k > 0\<close> and \<open>|L| * k\<close> fits a
  \<open>uint64\<close>, \<open>SplitIndices L k\<close> returns exactly \<open>k\<close> pieces, piece \<open>i\<close> is the slice of \<open>L\<close>
  from \<open>SplitOffset(|L|, k, i)\<close> to \<open>SplitOffset(|L|, k, i + 1)\<close>, and the pieces
  concatenated are \<open>L\<close>.
\<close>

theorem split_offset_indices:
  "(0 < chunks \<and> index \<le> chunks \<and> unat listSize * unat index < 2 ^ 64 \<longrightarrow>
      (\<exists>r. SplitOffset listSize chunks index = Inr r
         \<and> unat r = unat listSize * unat index div unat chunks))
   \<and> (0 < k \<and> length L * unat k < 2 ^ 64 \<longrightarrow>
      (\<exists>ps. SplitIndices L k = Inr ps \<and> length ps = unat k \<and> concat ps = L
         \<and> (\<forall>i < unat k. \<exists>s e.
               SplitOffset (of_nat (length L)) k (of_nat i) = Inr s
             \<and> SplitOffset (of_nat (length L)) k (of_nat i + 1) = Inr e
             \<and> slice L s e = Inr (ps ! i))))"
proof (intro conjI impI)
  assume "0 < chunks \<and> index \<le> chunks \<and> unat listSize * unat index < 2 ^ 64"
  then show "\<exists>r. SplitOffset listSize chunks index = Inr r
         \<and> unat r = unat listSize * unat index div unat chunks"
    using SplitOffset_exact [of chunks listSize index] by simp
next
  assume a: "0 < k \<and> length L * unat k < 2 ^ 64"
  let ?m = "length L"
  let ?off = "\<lambda>j. ?m * j div unat k"
  have k0: "0 < unat k" using a by (simp add: word_less_nat_alt)
  have "?m \<le> ?m * unat k" using k0 by simp
  then have ml: "?m < 2 ^ 64" using a by linarith
  have um: "unat (of_nat ?m :: uint64) = ?m" using ml by (simp add: unat_of_nat)
  obtain ps where run: "SplitIndices L k = Inr ps" and len: "length ps = unat k"
    and cat: "concat ps = L"
    and pc: "\<forall>j < unat k. ps ! j = take (?off (Suc j) - ?off j) (drop (?off j) L)"
    using SplitIndices_loop_spec [of k L 0 "[]"] a by (auto simp: SplitIndices_def)
  have "\<exists>s e. SplitOffset (of_nat ?m) k (of_nat i) = Inr s
             \<and> SplitOffset (of_nat ?m) k (of_nat i + 1) = Inr e
             \<and> slice L s e = Inr (ps ! i)" if "i < unat k" for i
  proof -
    have "unat k < 2 ^ 64" using unsigned_less [of k] by simp
    then have i64: "i < 2 ^ 64" "Suc i < 2 ^ 64" using that by simp_all
    have ui: "unat (of_nat i :: uint64) = i" using i64 by (simp add: unat_of_nat)
    have ui1: "unat (of_nat i + 1 :: uint64) = Suc i"
      using i64 ui unat_add_lem [of "of_nat i :: uint64" 1] by simp
    have "?m * i \<le> ?m * unat k" using that by (intro mult_le_mono2) simp
    then have p1: "?m * i < 2 ^ 64" using a by linarith
    have le: "?m * Suc i \<le> ?m * unat k" using that by (intro mult_le_mono2) simp
    then have p2: "?m * Suc i < 2 ^ 64" using a by linarith
    obtain s where s: "SplitOffset (of_nat ?m) k (of_nat i) = Inr s" "unat s = ?off i"
      using SplitOffset_exact [of k "of_nat ?m" "of_nat i"] a p1 um ui by auto
    obtain e where e: "SplitOffset (of_nat ?m) k (of_nat i + 1) = Inr e" "unat e = ?off (Suc i)"
      using SplitOffset_exact [of k "of_nat ?m" "of_nat i + 1"] a p2 um ui1 by auto
    have le1: "?off i \<le> ?off (Suc i)" by (rule split_off_mono) simp
    have "?off (Suc i) \<le> ?m * unat k div unat k" using le by (rule div_le_mono)
    then have le2: "?off (Suc i) \<le> ?m" using k0 by simp
    have "slice L s e = Inr (ps ! i)"
      using le1 le2 pc that by (simp add: slice_def s(2) e(2))
    then show ?thesis using s(1) e(1) by blast
  qed
  then show "\<exists>ps. SplitIndices L k = Inr ps \<and> length ps = unat k \<and> concat ps = L
         \<and> (\<forall>i < unat k. \<exists>s e.
               SplitOffset (of_nat (length L)) k (of_nat i) = Inr s
             \<and> SplitOffset (of_nat (length L)) k (of_nat i + 1) = Inr e
             \<and> slice L s e = Inr (ps ! i))"
    using run len cat by blast
qed

theorem split_offset_indices_witness:
  "(\<exists>r. SplitOffset 23 3 2 = Inr r \<and> unat r = 15)
   \<and> (\<exists>ps. SplitIndices [10, 11, 12, 13, 14] 2 = Inr ps \<and> length ps = 2
         \<and> concat ps = [10, 11, 12, 13, 14]
         \<and> (\<forall>i < 2. \<exists>s e.
               SplitOffset 5 2 (of_nat i) = Inr s
             \<and> SplitOffset 5 2 (of_nat i + 1) = Inr e
             \<and> slice [10, 11, 12, 13, 14] s e = Inr (ps ! i)))"
  using split_offset_indices [of 3 2 23 2 "[10, 11, 12, 13, 14]"]
  by simp

theorem split_offset_overflow_counterexample:
  "(0 :: uint64) < 2 \<and> (2 :: uint64) \<le> 2
   \<and> SplitOffset 0x8000000000000000 2 2 = Inr 0
   \<and> (0x8000000000000000 * 2) div 2 = (0x8000000000000000 :: nat)"
  by (simp add: SplitOffset_def)

section \<open>Bounds failures\<close>

text \<open>
  Claim C8 (bounds failures), amended. When the configured round count is not zero,
  \<open>ShuffledIndex\<close> and \<open>UnShuffledIndex\<close> return one of the two bounds errors (and do not
  panic) whenever \<open>index \<ge> indexCount\<close> or \<open>indexCount > 2^40\<close>; for every round count,
  \<open>ShuffleList\<close> and \<open>UnshuffleList\<close> return the list size error whenever the list is
  longer than \<open>2^40\<close> (its length a Go \<open>int\<close>, below \<open>2^63\<close>).
\<close>

theorem bounds_errors:
  "(rc \<noteq> 0 \<and> (index \<ge> indexCount \<or> indexCount > maxShuffleListSize) \<longrightarrow>
      is_bounds_error (ShuffledIndex rc H index indexCount seed)
    \<and> is_bounds_error (UnShuffledIndex rc H index indexCount seed))
   \<and> (2 ^ 40 < length input \<and> length input < 2 ^ 63 \<longrightarrow>
      ShuffleList rc H input seed = Inl (ListSizeOutOfBounds (length input))
    \<and> UnshuffleList rc H input seed = Inl (ListSizeOutOfBounds (length input)))"
proof (intro conjI impI)
  assume a: "rc \<noteq> 0 \<and> (index \<ge> indexCount \<or> indexCount > maxShuffleListSize)"
  then show "is_bounds_error (ShuffledIndex rc H index indexCount seed)"
    by (auto simp: ShuffledIndex_def innerShuffledIndex_def is_bounds_error_def)
  from a show "is_bounds_error (UnShuffledIndex rc H index indexCount seed)"
    by (auto simp: UnShuffledIndex_def innerShuffledIndex_def is_bounds_error_def)
next
  assume a: "2 ^ 40 < length input \<and> length input < 2 ^ 63"
  then have "unat (of_nat (length input) :: uint64) = length input"
    by (simp add: unat_of_nat)
  then have gt: "(of_nat (length input) :: uint64) > maxShuffleListSize"
    using a by (simp add: word_less_nat_alt max_unat)
  have "\<not> length input \<le> 1" using a by simp
  then show "ShuffleList rc H input seed = Inl (ListSizeOutOfBounds (length input))"
    and "UnshuffleList rc H input seed = Inl (ListSizeOutOfBounds (length input))"
    using gt by (simp_all add: ShuffleList_def UnshuffleList_def innerShuffleList_def)
qed

theorem bounds_errors_witness:
  "is_bounds_error (ShuffledIndex 90 toy_hash 5 3 (replicate 32 0))
   \<and> is_bounds_error (UnShuffledIndex 90 toy_hash 5 3 (replicate 32 0))
   \<and> ShuffleList 90 toy_hash (replicate (2 ^ 40 + 1) 0) (replicate 32 0)
       = Inl (ListSizeOutOfBounds (2 ^ 40 + 1))
   \<and> UnshuffleList 90 toy_hash (replicate (2 ^ 40 + 1) 0) (replicate 32 0)
       = Inl (ListSizeOutOfBounds (2 ^ 40 + 1))"
  using bounds_errors [of 90 3 5 toy_hash "replicate 32 0" "replicate (2 ^ 40 + 1) 0"]
  by simp

theorem bounds_errors_counterexample:
  "(5 :: uint64) \<ge> 3
   \<and> ShuffledIndex 0 toy_hash 5 3 (replicate 32 0) = Inr 5
   \<and> UnShuffledIndex 0 toy_hash 5 3 (replicate 32 0) = Inr 5"
  by (simp add: ShuffledIndex_def UnShuffledIndex_def innerShuffledIndex_def)

section \<open>Attestation store\<close>

lemma update_record_other: "k \<noteq> key \<Longrightarrow> update_record store key att k = store k"
  by (simp add: update_record_def split: option.splits)

lemma update_record_self:
  "update_record store key att key =
     (case store key of None \<Rightarrow> Some att
      | Some cur \<Rightarrow> if att_slot cur \<le> att_slot att then Some att else Some cur)"
  by (simp add: update_record_def split: option.splits)

lemma update_record_idem:
  "update_record (update_record store key att) key att = update_record store key att"
  by (rule ext) (auto simp: update_record_def split: option.splits)

lemma fold_update_record:
  "fold (\<lambda>key s. update_record s key att) keys store k =
     (if k \<in> set keys then update_record store k att k else store k)"
proof (induction keys arbitrary: store)
  case Nil
  then show ?case by simp
next
  case (Cons a keys)
  show ?case
  proof (cases "k = a")
    case True
    have "update_record (update_record store a att) a att a = update_record store a att a"
      by (simp add: update_record_idem)
    then show ?thesis using True Cons.IH [of "update_record store a att"] by simp
  next
    case False
    then show ?thesis
      using Cons.IH [of "update_record store a att"]
      by (simp add: update_record_other update_record_self)
  qed
qed

lemma UpdateLatestAttestation_key:
  "UpdateLatestAttestation committee_of store att key =
     (if attests committee_of att key
      then (case store key of None \<Rightarrow> Some att
            | Some cur \<Rightarrow> if att_slot cur \<le> att_slot att then Some att else Some cur)
      else store key)"
  by (simp add: UpdateLatestAttestation_def fold_update_record attests_def update_record_self)

lemma Batch_highest:
  assumes "BatchUpdateLatestAttestation committee_of store atts key = Some r"
  shows "(\<forall>a \<in> set atts. attests committee_of a key \<longrightarrow> att_slot a \<le> att_slot r)
       \<and> (\<forall>cur. store key = Some cur \<longrightarrow> att_slot cur \<le> att_slot r)
       \<and> (r \<in> set atts \<or> store key = Some r)"
  using assms
proof (induction atts arbitrary: store)
  case Nil
  then show ?case by (simp add: BatchUpdateLatestAttestation_def)
next
  case (Cons a atts)
  let ?s = "UpdateLatestAttestation committee_of store a"
  have b: "BatchUpdateLatestAttestation committee_of ?s atts key = Some r"
    using Cons.prems by (simp add: BatchUpdateLatestAttestation_def)
  note ih = Cons.IH [OF b]
  show ?case
    using ih
    by (auto simp: UpdateLatestAttestation_key split: if_splits option.splits)
qed

lemma Batch_defined:
  assumes "\<exists>a \<in> set atts. attests committee_of a key"
  shows "BatchUpdateLatestAttestation committee_of store atts key \<noteq> None"
proof -
  have keep: "store key \<noteq> None \<Longrightarrow>
      BatchUpdateLatestAttestation committee_of store atts key \<noteq> None" for store atts
  proof (induction atts arbitrary: store)
    case Nil
    then show ?case by (simp add: BatchUpdateLatestAttestation_def)
  next
    case (Cons a atts)
    have "UpdateLatestAttestation committee_of store a key \<noteq> None"
      using Cons.prems by (auto simp: UpdateLatestAttestation_key split: option.splits)
    then show ?case using Cons.IH by (simp add: BatchUpdateLatestAttestation_def)
  qed
  show ?thesis using assms
  proof (induction atts arbitrary: store)
    case Nil
    then show ?case by simp
  next
    case (Cons a atts)
    show ?case
    proof (cases "attests committee_of a key")
      case True
      then have "UpdateLatestAttestation committee_of store a key \<noteq> None"
        by (auto simp: UpdateLatestAttestation_key split: option.splits)
      then show ?thesis
        using keep [of "UpdateLatestAttestation committee_of store a" atts]
        by (simp add: BatchUpdateLatestAttestation_def)
    next
      case False
      then show ?thesis using Cons.prems Cons.IH
        by (simp add: BatchUpdateLatestAttestation_def)
    qed
  qed
qed

text \<open>
  Claim C3 (monotonic-latest policy). An attesting validator's record is overwritten by
  the incoming attestation exactly when no record is stored or the stored record's slot is
  at most the incoming slot, and is kept when the incoming slot is lower; the records of
  the other validators are untouched. After any sequence of updates the stored record of a
  validator has the highest slot among the stored record it started from and the
  attestations it attested in, it is one of them, and it exists as soon as the validator
  attested once.
\<close>

theorem attestation_monotonic_latest:
  "(attests committee_of att key \<longrightarrow>
      UpdateLatestAttestation committee_of store att key =
        (case store key of None \<Rightarrow> Some att
         | Some cur \<Rightarrow> if att_slot cur \<le> att_slot att then Some att else Some cur))
   \<and> (\<not> attests committee_of att key \<longrightarrow>
        UpdateLatestAttestation committee_of store att key = store key)
   \<and> (\<forall>r. BatchUpdateLatestAttestation committee_of store atts key = Some r \<longrightarrow>
        (\<forall>a \<in> set atts. attests committee_of a key \<longrightarrow> att_slot a \<le> att_slot r)
        \<and> (\<forall>cur. store key = Some cur \<longrightarrow> att_slot cur \<le> att_slot r)
        \<and> (r \<in> set atts \<or> store key = Some r))
   \<and> ((\<exists>a \<in> set atts. attests committee_of a key) \<longrightarrow>
        BatchUpdateLatestAttestation committee_of store atts key \<noteq> None)"
  using Batch_highest [of committee_of store atts key] Batch_defined [of atts committee_of key store]
  by (simp add: UpdateLatestAttestation_key)

theorem attestation_monotonic_latest_witness:
  "attests (\<lambda>a. [[46], [47]])
     \<lparr>att_slot = 36, att_shard = 36, att_block_root = [], aggregation_bitfield = [False, True]\<rparr> [47]
   \<and> UpdateLatestAttestation (\<lambda>a. [[46], [47]])
       (Map.empty([47] \<mapsto>
          \<lparr>att_slot = 1, att_shard = 2, att_block_root = [], aggregation_bitfield = [False, True]\<rparr>))
       \<lparr>att_slot = 36, att_shard = 36, att_block_root = [], aggregation_bitfield = [False, True]\<rparr> [47]
     = Some \<lparr>att_slot = 36, att_shard = 36, att_block_root = [], aggregation_bitfield = [False, True]\<rparr>
   \<and> UpdateLatestAttestation (\<lambda>a. [[46], [47]])
       (Map.empty([47] \<mapsto>
          \<lparr>att_slot = 36, att_shard = 36, att_block_root = [], aggregation_bitfield = [False, True]\<rparr>))
       \<lparr>att_slot = 5, att_shard = 2, att_block_root = [], aggregation_bitfield = [False, True]\<rparr> [47]
     = Some \<lparr>att_slot = 36, att_shard = 36, att_block_root = [], aggregation_bitfield = [False, True]\<rparr>
   \<and> BatchUpdateLatestAttestation (\<lambda>a. [[46], [47]]) Map.empty
       [\<lparr>att_slot = 36, att_shard = 36, att_block_root = [], aggregation_bitfield = [False, True]\<rparr>,
        \<lparr>att_slot = 5, att_shard = 2, att_block_root = [], aggregation_bitfield = [False, True]\<rparr>] [47]
     \<noteq> None"
proof -
  let ?C = "\<lambda>a :: attestation. [[46 :: byte], [47]]"
  let ?a1 = "\<lparr>att_slot = 1, att_shard = 2, att_block_root = [], aggregation_bitfield = [False, True]\<rparr>"
  let ?a36 = "\<lparr>att_slot = 36, att_shard = 36, att_block_root = [], aggregation_bitfield = [False, True]\<rparr>"
  let ?a5 = "\<lparr>att_slot = 5, att_shard = 2, att_block_root = [], aggregation_bitfield = [False, True]\<rparr>"
  have a: "attests ?C ?a36 [47]" "attests ?C ?a5 [47]"
    by (simp_all add: attests_def attester_keys_def)
  show ?thesis
    using a
      attestation_monotonic_latest [of ?C ?a36 "[47]" "Map.empty([47] \<mapsto> ?a1)" "[]"]
      attestation_monotonic_latest [of ?C ?a5 "[47]" "Map.empty([47] \<mapsto> ?a36)" "[]"]
      attestation_monotonic_latest [of ?C ?a36 "[47]" Map.empty "[?a36, ?a5]"]
    by simp
qed

section \<open>State generator\<close>

lemma replay_live:
  assumes "\<forall>s'. s < s' \<and> s' \<le> s + k \<longrightarrow> chain_index db s' \<noteq> None \<longrightarrow> db_history db s' \<noteq> None"
  shows "replay advance db (live advance g (db_history db) s) s k
       = Inr (live advance g (db_history db) (s + k))"
  using assms
proof (induction k arbitrary: s)
  case 0
  then show ?case by simp
next
  case (Suc k)
  have ih: "replay advance db (live advance g (db_history db) (Suc s)) (Suc s) k
       = Inr (live advance g (db_history db) (Suc s + k))"
    using Suc.prems by (intro Suc.IH) auto
  have here: "chain_index db (Suc s) \<noteq> None \<longrightarrow> db_history db (Suc s) \<noteq> None"
    using Suc.prems by auto
  show ?case
  proof (cases "chain_index db (Suc s)")
    case None
    then have "db_history db (Suc s) = None" by (simp add: db_history_def)
    then show ?thesis using None ih by simp
  next
    case (Some r)
    then obtain b where b: "block_store db r = Some b"
      using here by (auto simp: db_history_def)
    then have "db_history db (Suc s) = Some b" using Some by (simp add: db_history_def)
    then show ?thesis using Some b ih by simp
  qed
qed

text \<open>
  Claim C6 (state regeneration). When the saved finalized state is the state live
  processing produced at the finalized slot, the target slot is at or after it, and every
  block the canonical chain's index names between the two is in the store,
  \<open>GenerateStateFromBlock\<close> returns, without error, the state live processing of the same
  block history produced at the target slot: with the block where a slot has one, and by
  the no-block transition where it has none.
\<close>

theorem state_regeneration:
  assumes "finalized_state db = live advance g (db_history db) (finalized_slot db)"
    and "finalized_slot db \<le> targetSlot"
    and "\<forall>s. finalized_slot db < s \<and> s \<le> targetSlot \<longrightarrow>
           chain_index db s \<noteq> None \<longrightarrow> db_history db s \<noteq> None"
  shows "GenerateStateFromBlock advance db targetSlot
       = Inr (live advance g (db_history db) targetSlot)"
  using assms replay_live [of "finalized_slot db" "targetSlot - finalized_slot db" db advance g]
  by (simp add: GenerateStateFromBlock_def)

theorem state_regeneration_witness:
  "finalized_state demo_db = live demo_advance 1 (db_history demo_db) (finalized_slot demo_db)
   \<and> finalized_slot demo_db \<le> 4
   \<and> GenerateStateFromBlock demo_advance demo_db 4 = Inr (live demo_advance 1 (db_history demo_db) 4)
   \<and> live demo_advance 1 (db_history demo_db) 4 = 70"
proof -
  have a: "finalized_state demo_db = live demo_advance 1 (db_history demo_db) (finalized_slot demo_db)"
    by (simp add: demo_db_def db_history_def demo_advance_def eval_nat_numeral)
  have b: "finalized_slot demo_db \<le> 4" by (simp add: demo_db_def)
  have c: "\<forall>s. finalized_slot demo_db < s \<and> s \<le> 4 \<longrightarrow>
             chain_index demo_db s \<noteq> None \<longrightarrow> db_history demo_db s \<noteq> None"
    by (auto simp: demo_db_def db_history_def)
  have d: "live demo_advance 1 (db_history demo_db) 4 = 70"
    by (simp add: demo_db_def db_history_def demo_advance_def eval_nat_numeral)
  show ?thesis using a b d state_regeneration [OF a b c] by simp
qed

section \<open>Vote count\<close>

lemma block_by_root_in: "block_by_root store r = Some p \<Longrightarrow> p \<in> set store \<and> bn_root p = r"
  by (auto simp: block_by_root_def find_Some_iff)





lemma parents_known_mono:
  "parents_known store slot xs \<Longrightarrow> slot \<le> slot' \<Longrightarrow> parents_known store slot' xs"
  by (auto simp: parents_known_def list_all_iff)

lemma ancestor_walk_total:
  assumes "wf_tree store" "parents_known store slot store"
    and "wf_node store x" "parents_known store slot [x]"
  shows "\<exists>a. ancestor_walk store slot x = Inr a"
  using assms
proof (induction store slot x rule: ancestor_walk.induct)
  case (1 store slot x)
  show ?case
  proof (cases "bn_slot x \<le> slot")
    case True
    then show ?thesis by (simp add: ancestor_walk.simps [of store slot x])
  next
    case False
    show ?thesis
    proof (cases "bn_parent x")
      case None
      then show ?thesis using False by (simp add: ancestor_walk.simps [of store slot x])
    next
      case (Some pr)
      then obtain p where found: "block_by_root store pr = Some p"
        using False "1.prems"(4) by (auto simp: parents_known_def)
      have lower: "bn_slot p < bn_slot x"
        using Some found "1.prems"(3) by (simp add: wf_node_def)
      have p: "p \<in> set store" using found by (simp add: block_by_root_in)
      then have "wf_node store p" "parents_known store slot [p]"
        using "1.prems"(1,2) by (simp_all add: wf_tree_def parents_known_def list_all_iff)
      then have "\<exists>a. ancestor_walk store slot p = Inr a"
        using "1.IH" [OF False Some found lower "1.prems"(1,2)] by simp
      then show ?thesis
        using False Some found lower by (simp add: ancestor_walk.simps [of store slot x])
    qed
  qed
qed

lemma VoteCount_total:
  assumes "wf_tree store" "parents_known store (bn_slot child) store"
    and "list_all (wf_node store) (map snd targets)"
    and "parents_known store (bn_slot child) (map snd targets)"
  shows "\<exists>n. VoteCount store child st targets = Inr n"
  using assms(3,4)
proof (induction targets)
  case Nil
  then show ?case by simp
next
  case (Cons vt targets)
  obtain v t where vt: "vt = (v, t)" by (cases vt)
  have "wf_node store t" "parents_known store (bn_slot child) [t]"
    using Cons.prems vt by (simp_all add: parents_known_def)
  then obtain a where a: "ancestor_walk store (bn_slot child) t = Inr a"
    using ancestor_walk_total [OF assms(1,2)] by blast
  have "list_all (wf_node store) (map snd targets)"
    "parents_known store (bn_slot child) (map snd targets)"
    using Cons.prems by (simp_all add: parents_known_def)
  then obtain m where "VoteCount store child st targets = Inr m"
    using Cons.IH by blast
  then show ?case using vt a by simp
qed



section \<open>LMD-GHOST\<close>

lemma better_irrefl: "\<not> better x x"
  by (simp add: better_def)

lemma not_better_trans: "\<not> better a b \<Longrightarrow> \<not> better b c \<Longrightarrow> \<not> better a c"
  by (auto simp: better_def)

lemma better_asym: "better a b \<Longrightarrow> \<not> better b a"
  by (auto simp: better_def)

lemma best_child_props:
  "best_child b xs \<in> set (b # xs) \<and> (\<forall>y \<in> set (b # xs). \<not> better y (best_child b xs))"
proof (induction xs arbitrary: b)
  case Nil
  then show ?case by (simp add: better_irrefl)
next
  case (Cons x xs)
  let ?b' = "if better x b then x else b"
  let ?r = "best_child ?b' xs"
  have ih: "?r \<in> set (?b' # xs)" "\<forall>y \<in> set (?b' # xs). \<not> better y ?r"
    using Cons.IH [of ?b'] by auto
  have top: "\<not> better ?b' ?r" using ih(2) by simp
  have "\<not> better b ?b'" "\<not> better x ?b'"
    by (auto simp: better_irrefl better_asym)
  then have "\<not> better b ?r" "\<not> better x ?r"
    using top not_better_trans by blast+
  then show ?case using ih by auto
qed

lemma best_child_strict:
  assumes "w \<in> set (x # xs)" "\<forall>y \<in> set (x # xs). y \<noteq> w \<longrightarrow> snd y < snd w"
  shows "best_child x xs = w"
proof (rule ccontr)
  assume ne: "best_child x xs \<noteq> w"
  have "best_child x xs \<in> set (x # xs)" using best_child_props [of x xs] by simp
  then have "snd (best_child x xs) < snd w" using assms(2) ne by blast
  then have "better w (best_child x xs)" by (simp add: better_def)
  then show False using best_child_props [of x xs] assms(1) by blast
qed

lemma count_children_Inr:
  assumes "count_children store st targets cs = Inr vs"
  shows "map fst vs = cs \<and> (\<forall>y \<in> set vs. VoteCount store (fst y) st targets = Inr (snd y))"
  using assms
proof (induction cs arbitrary: vs)
  case Nil
  then show ?case by simp
next
  case (Cons c cs)
  then show ?case by (auto split: sum.splits)
qed

lemma block_by_root_self:
  assumes "distinct (map bn_root store)" "b \<in> set store"
  shows "block_by_root store (bn_root b) = Some b"
proof -
  have "\<exists>p. block_by_root store (bn_root b) = Some p"
    using assms(2) by (cases "block_by_root store (bn_root b)") (auto simp: block_by_root_def find_None_iff)
  then obtain p where p: "block_by_root store (bn_root b) = Some p" by blast
  then have "p \<in> set store" "bn_root p = bn_root b" by (simp_all add: block_by_root_in)
  then have "p = b" using assms by (meson distinct_map inj_onD)
  then show ?thesis using p by simp
qed

lemma descends_parent:
  assumes "descends store h r" "h \<in> set store" "distinct (map bn_root store)"
    and "c \<in> set store" "r = bn_root c" "bn_parent c = Some pr" "block_by_root store pr = Some p"
  shows "descends store h (bn_root p)"
  using assms
proof (induction rule: descends.induct)
  case (self store x)
  then have "x = c" by (meson distinct_map inj_onD)
  then show ?case
    using self descends.up [of x pr store p "bn_root p"] descends.self [of store p] by simp
next
  case (up x pr' store q r)
  have "q \<in> set store" using up.hyps(2) by (simp add: block_by_root_in)
  then have "descends store q (bn_root p)" using up by blast
  then show ?case using up.hyps(1,2) by (rule descends.up [rotated 2])
qed

lemma count_children_total:
  assumes "\<forall>c \<in> set cs. \<exists>n. VoteCount store c st targets = Inr n"
  shows "\<exists>vs. count_children store st targets cs = Inr vs"
  using assms
proof (induction cs)
  case Nil
  then show ?case by simp
next
  case (Cons c cs)
  obtain n where "VoteCount store c st targets = Inr n" using Cons.prems by auto
  moreover obtain vs where "count_children store st targets cs = Inr vs"
    using Cons.IH Cons.prems by auto
  ultimately show ?case by simp
qed

lemma child_above:
  assumes "wf_tree store" "distinct (map bn_root store)" "head \<in> set store"
    and "c \<in> set (BlockChildren store head s)"
  shows "c \<in> set store \<and> bn_parent c = Some (bn_root head) \<and> bn_slot head < bn_slot c
       \<and> bn_slot c \<le> s"
proof -
  have c: "c \<in> set store" "bn_parent c = Some (bn_root head)" "bn_slot c \<le> s"
    using assms(4) by (simp_all add: BlockChildren_def)
  have hd: "block_by_root store (bn_root head) = Some head"
    using assms(2,3) by (rule block_by_root_self)
  have "wf_node store c" using c(1) assms(1) by (simp add: wf_tree_def list_all_iff)
  then have "bn_slot head < bn_slot c" using c(2) hd by (simp add: wf_node_def)
  then show ?thesis using c by simp
qed

lemma children_counted:
  assumes "wf_tree store" "distinct (map bn_root store)" "head \<in> set store"
    and "list_all (wf_node store) (map snd targets)"
    and "parents_known store (bn_slot head) (store @ map snd targets)"
  shows "\<exists>vs. count_children store st targets (BlockChildren store head (fc_slot st)) = Inr vs"
proof (rule count_children_total, rule ballI)
  fix c assume "c \<in> set (BlockChildren store head (fc_slot st))"
  then have "bn_slot head \<le> bn_slot c"
    using child_above [OF assms(1-3)] by fastforce
  then have "parents_known store (bn_slot c) (store @ map snd targets)"
    using assms(5) by (rule parents_known_mono [rotated])
  then have "parents_known store (bn_slot c) store"
    "parents_known store (bn_slot c) (map snd targets)"
    by (simp_all add: parents_known_def)
  then show "\<exists>n. VoteCount store c st targets = Inr n"
    using VoteCount_total [OF assms(1) _ assms(4)] by blast
qed

lemma lmd_ghost_leaf:
  assumes "BlockChildren store head (fc_slot st) = []"
  shows "lmd_ghost store st targets head = Some (Inr head)"
  using assms by (subst lmd_ghost.simps) simp

lemma lmd_ghost_step:
  assumes "count_children store st targets (BlockChildren store head (fc_slot st)) = Inr (x # xs)"
  shows "lmd_ghost store st targets head = lmd_ghost store st targets (fst (best_child x xs))"
  using assms by (subst lmd_ghost.simps) simp

lemma lmd_ghost_total:
  assumes "wf_tree store" "distinct (map bn_root store)"
    and "list_all (wf_node store) (map snd targets)"
  shows "head \<in> set store \<Longrightarrow> parents_known store (bn_slot head) (store @ map snd targets) \<Longrightarrow>
     \<exists>h. lmd_ghost store st targets head = Some (Inr h) \<and> h \<in> set store
       \<and> BlockChildren store h (fc_slot st) = [] \<and> descends store h (bn_root head)"
proof (induction "fc_slot st - bn_slot head" arbitrary: head rule: less_induct)
  case less
  let ?cs = "BlockChildren store head (fc_slot st)"
  obtain vs where vs: "count_children store st targets ?cs = Inr vs"
    using children_counted [OF assms(1,2) less.prems(1) assms(3) less.prems(2)] by blast
  note cc = count_children_Inr [OF vs]
  show ?case
  proof (cases vs)
    case Nil
    then have "?cs = []" using cc by simp
    then show ?thesis
      using lmd_ghost_leaf [of store head st targets] less.prems(1) descends.self [of store head]
      by simp
  next
    case (Cons x xs)
    let ?n = "fst (best_child x xs)"
    have "best_child x xs \<in> set vs" using best_child_props [of x xs] Cons by simp
    then have "?n \<in> set (map fst vs)" by auto
    then have nc: "?n \<in> set ?cs" using cc by simp
    have ca: "?n \<in> set store \<and> bn_parent ?n = Some (bn_root head) \<and> bn_slot head < bn_slot ?n
       \<and> bn_slot ?n \<le> fc_slot st"
      using assms(1,2) less.prems(1) nc by (rule child_above)
    then have n: "?n \<in> set store" "bn_parent ?n = Some (bn_root head)"
      "bn_slot head < bn_slot ?n" "bn_slot ?n \<le> fc_slot st"
      by blast+
    have hd: "block_by_root store (bn_root head) = Some head"
      using assms(2) less.prems(1) by (rule block_by_root_self)
    have le: "bn_slot head \<le> bn_slot ?n" using n(3) by (rule less_imp_le)
    have k: "parents_known store (bn_slot ?n) (store @ map snd targets)"
      using less.prems(2) le by (rule parents_known_mono)
    have lt: "fc_slot st - bn_slot ?n < fc_slot st - bn_slot head" using n(3,4) by linarith
    have "\<exists>h. lmd_ghost store st targets ?n = Some (Inr h) \<and> h \<in> set store
       \<and> BlockChildren store h (fc_slot st) = [] \<and> descends store h (bn_root ?n)"
      using lt n(1) k by (rule less.hyps)
    then obtain h where h: "lmd_ghost store st targets ?n = Some (Inr h)" "h \<in> set store"
      "BlockChildren store h (fc_slot st) = []" "descends store h (bn_root ?n)"
      by (elim exE conjE)
    have d: "descends store h (bn_root head)"
      using descends_parent [OF h(4) h(2) assms(2) n(1) refl n(2) hd] .
    have st: "lmd_ghost store st targets head = lmd_ghost store st targets ?n"
      using vs unfolding Cons by (rule lmd_ghost_step)
    show ?thesis
      unfolding st using h(1,2,3) d by (intro exI [of _ h] conjI)
  qed
qed

lemma lmd_ghost_greatest:
  assumes "count_children store st targets (BlockChildren store head (fc_slot st)) = Inr vs"
    and "BlockChildren store head (fc_slot st) \<noteq> []"
  shows "\<exists>c n. c \<in> set (BlockChildren store head (fc_slot st))
           \<and> VoteCount store c st targets = Inr n
           \<and> (\<forall>c' \<in> set (BlockChildren store head (fc_slot st)).
                \<exists>m. VoteCount store c' st targets = Inr m
                   \<and> (m < n \<or> (m = n \<and> bn_root c \<le> bn_root c')))
           \<and> lmd_ghost store st targets head = lmd_ghost store st targets c"
proof -
  let ?cs = "BlockChildren store head (fc_slot st)"
  note cc = count_children_Inr [OF assms(1)]
  obtain x xs where vs: "vs = x # xs" using cc assms(2) by (cases vs) auto
  let ?b = "best_child x xs"
  have bin: "?b \<in> set vs" and top: "\<forall>z \<in> set vs. \<not> better z ?b"
    using best_child_props [of x xs] vs by auto
  have "fst ?b \<in> set (map fst vs)" using bin by auto
  then have c1: "fst ?b \<in> set ?cs" using cc by simp
  have c2: "VoteCount store (fst ?b) st targets = Inr (snd ?b)" using cc bin by blast
  have c3: "\<exists>m. VoteCount store c' st targets = Inr m
                   \<and> (m < snd ?b \<or> (m = snd ?b \<and> bn_root (fst ?b) \<le> bn_root c'))"
    if "c' \<in> set ?cs" for c'
  proof -
    have "c' \<in> fst ` set vs" using that cc by (metis set_map)
    then obtain z where z: "z \<in> set vs" "fst z = c'" by auto
    have "\<not> better z ?b" using top z(1) by blast
    then have "snd z < snd ?b \<or> (snd z = snd ?b \<and> bn_root (fst ?b) \<le> bn_root (fst z))"
      by (auto simp: better_def)
    moreover have "VoteCount store c' st targets = Inr (snd z)" using cc z by blast
    ultimately show ?thesis using z(2) by auto
  qed
  have c4: "lmd_ghost store st targets head = lmd_ghost store st targets (fst ?b)"
    using assms(1) vs by (intro lmd_ghost_step) simp
  show ?thesis using c1 c2 c3 c4 by blast
qed

lemma lmd_ghost_strict:
  assumes "w \<in> set (BlockChildren store head (fc_slot st))"
    and "VoteCount store w st targets = Inr n"
    and "\<forall>c \<in> set (BlockChildren store head (fc_slot st)).
           c \<noteq> w \<longrightarrow> (\<exists>m. VoteCount store c st targets = Inr m \<and> m < n)"
  shows "lmd_ghost store st targets head = lmd_ghost store st targets w"
proof -
  let ?cs = "BlockChildren store head (fc_slot st)"
  have "\<exists>m. VoteCount store c st targets = Inr m" if "c \<in> set ?cs" for c
    using that assms(2,3) by (cases "c = w") auto
  then obtain vs where vs: "count_children store st targets ?cs = Inr vs"
    using count_children_total by blast
  note cc = count_children_Inr [OF vs]
  have "w \<in> fst ` set vs" using assms(1) cc by (metis set_map)
  then obtain z where z: "z \<in> set vs" "fst z = w" by auto
  then have "snd z = n" using cc assms(2) by auto
  then have win: "(w, n) \<in> set vs" using z by (metis prod.collapse)
  obtain x xs where xs: "vs = x # xs" using win by (cases vs) auto
  have "snd y < n" if "y \<in> set vs" "y \<noteq> (w, n)" for y
  proof -
    have y: "VoteCount store (fst y) st targets = Inr (snd y)" using cc that(1) by blast
    have "fst y \<in> set (map fst vs)" using that(1) by auto
    then have in_cs: "fst y \<in> set ?cs" using cc by simp
    have "fst y \<noteq> w"
    proof
      assume "fst y = w"
      then have "snd y = n" using y assms(2) by simp
      then show False using \<open>fst y = w\<close> that(2) by (metis prod.collapse)
    qed
    then show ?thesis using assms(3) in_cs y by fastforce
  qed
  then have "best_child x xs = (w, n)"
    using best_child_strict [of "(w, n)" x xs] win xs by auto
  then show ?thesis using lmd_ghost_step [of store st targets head x xs] vs xs by simp
qed

text \<open>
  Claim C5 (LMD-GHOST head selection). On a well-formed block tree with distinct roots
  that is connected above the start block's slot, the descent from a block of the store
  returns a head: a block of the store with no children at or below the state's slot that
  equals or descends from the start block. Where the current block has children, the
  descent counts the votes of every child and moves to a child whose count no other
  child's count exceeds, the smallest root among equal counts. A block without children is
  returned as it is. The children of a block are the blocks of the store that name it as
  parent and lie at or below the given slot. A child with strictly more votes than every
  other child is the one the descent moves to, wherever it stands among the children: the
  result is a function of the store, the state, the vote targets and the start block.
\<close>

theorem lmd_ghost_head:
  "(wf_tree store \<and> distinct (map bn_root store) \<and> head \<in> set store
      \<and> list_all (wf_node store) (map snd targets)
      \<and> parents_known store (bn_slot head) (store @ map snd targets) \<longrightarrow>
      (\<exists>h. lmd_ghost store st targets head = Some (Inr h) \<and> h \<in> set store
         \<and> BlockChildren store h (fc_slot st) = [] \<and> descends store h (bn_root head))
    \<and> (BlockChildren store head (fc_slot st) \<noteq> [] \<longrightarrow>
         (\<exists>c n. c \<in> set (BlockChildren store head (fc_slot st))
            \<and> VoteCount store c st targets = Inr n
            \<and> (\<forall>c' \<in> set (BlockChildren store head (fc_slot st)).
                 \<exists>m. VoteCount store c' st targets = Inr m
                    \<and> (m < n \<or> (m = n \<and> bn_root c \<le> bn_root c')))
            \<and> lmd_ghost store st targets head = lmd_ghost store st targets c)))
   \<and> (BlockChildren store head (fc_slot st) = [] \<longrightarrow>
        lmd_ghost store st targets head = Some (Inr head))
   \<and> (b \<in> set (BlockChildren store head s) \<longleftrightarrow>
        b \<in> set store \<and> bn_parent b = Some (bn_root head) \<and> bn_slot b \<le> s)
   \<and> (w \<in> set (BlockChildren store head (fc_slot st))
        \<and> VoteCount store w st targets = Inr k
        \<and> (\<forall>c \<in> set (BlockChildren store head (fc_slot st)).
              c \<noteq> w \<longrightarrow> (\<exists>m. VoteCount store c st targets = Inr m \<and> m < k)) \<longrightarrow>
        lmd_ghost store st targets head = lmd_ghost store st targets w)"
proof (intro conjI impI)
  assume h: "wf_tree store \<and> distinct (map bn_root store) \<and> head \<in> set store
      \<and> list_all (wf_node store) (map snd targets)
      \<and> parents_known store (bn_slot head) (store @ map snd targets)"
  show "\<exists>h. lmd_ghost store st targets head = Some (Inr h) \<and> h \<in> set store
         \<and> BlockChildren store h (fc_slot st) = [] \<and> descends store h (bn_root head)"
    using h lmd_ghost_total [of store targets head st] by blast
  assume "BlockChildren store head (fc_slot st) \<noteq> []"
  moreover obtain vs
    where "count_children store st targets (BlockChildren store head (fc_slot st)) = Inr vs"
    using h children_counted [of store head targets st] by blast
  ultimately show "\<exists>c n. c \<in> set (BlockChildren store head (fc_slot st))
            \<and> VoteCount store c st targets = Inr n
            \<and> (\<forall>c' \<in> set (BlockChildren store head (fc_slot st)).
                 \<exists>m. VoteCount store c' st targets = Inr m
                    \<and> (m < n \<or> (m = n \<and> bn_root c \<le> bn_root c')))
            \<and> lmd_ghost store st targets head = lmd_ghost store st targets c"
    using lmd_ghost_greatest [of store st targets head vs] by blast
next
  assume "BlockChildren store head (fc_slot st) = []"
  then show "lmd_ghost store st targets head = Some (Inr head)" by (rule lmd_ghost_leaf)
next
  show "b \<in> set (BlockChildren store head s) \<longleftrightarrow>
        b \<in> set store \<and> bn_parent b = Some (bn_root head) \<and> bn_slot b \<le> s"
    by (auto simp: BlockChildren_def)
next
  assume "w \<in> set (BlockChildren store head (fc_slot st))
        \<and> VoteCount store w st targets = Inr k
        \<and> (\<forall>c \<in> set (BlockChildren store head (fc_slot st)).
              c \<noteq> w \<longrightarrow> (\<exists>m. VoteCount store c st targets = Inr m \<and> m < k))"
  then show "lmd_ghost store st targets head = lmd_ghost store st targets w"
    using lmd_ghost_strict [of w store head st targets k] by blast
qed

theorem lmd_ghost_head_witness:
  "lmd_ghost [split_b1, split_b2, split_b3, split_b4] split_state split_votes split_b1
     = Some (Inr split_b4)
   \<and> split_b4 \<in> set [split_b1, split_b2, split_b3, split_b4]
   \<and> BlockChildren [split_b1, split_b2, split_b3, split_b4] split_b4 (fc_slot split_state) = []
   \<and> descends [split_b1, split_b2, split_b3, split_b4] split_b4 (bn_root split_b1)
   \<and> lmd_ghost [split_b4, split_b3, split_b2, split_b1] split_state split_votes split_b1
       = Some (Inr split_b4)
   \<and> lmd_ghost diff_store split_state diff_votes diff_b1 = Some (Inr diff_b5)"
proof -
  let ?S = "[split_b1, split_b2, split_b3, split_b4]"
  let ?R = "[split_b4, split_b3, split_b2, split_b1]"
  note defs = split_b1_def split_b2_def split_b3_def split_b4_def split_state_def
    split_votes_def
  note ddefs = diff_b1_def diff_b2_def diff_b3_def diff_b4_def diff_b5_def diff_b6_def
    diff_store_def diff_votes_def split_state_def
  have wf: "wf_tree ?S \<and> distinct (map bn_root ?S) \<and> split_b1 \<in> set ?S
      \<and> list_all (wf_node ?S) (map snd split_votes)
      \<and> parents_known ?S (bn_slot split_b1) (?S @ map snd split_votes)"
    by (simp add: wf_tree_def wf_node_def parents_known_def block_by_root_def defs)
  have nonempty: "BlockChildren ?S split_b1 (fc_slot split_state) \<noteq> []"
    by (simp add: BlockChildren_def defs)
  have leaf: "BlockChildren ?S split_b4 (fc_slot split_state) = []"
    by (simp add: BlockChildren_def defs)
  have win: "split_b4 \<in> set (BlockChildren ?S split_b1 (fc_slot split_state))
      \<and> VoteCount ?S split_b4 split_state split_votes = Inr 64000000000
      \<and> (\<forall>c \<in> set (BlockChildren ?S split_b1 (fc_slot split_state)). c \<noteq> split_b4 \<longrightarrow>
            (\<exists>m. VoteCount ?S c split_state split_votes = Inr m \<and> m < 64000000000))"
    by (simp add: BlockChildren_def ancestor_walk.simps block_by_root_def defs)
  have leaf_rev: "BlockChildren ?R split_b4 (fc_slot split_state) = []"
    by (simp add: BlockChildren_def defs)
  have win_rev: "split_b4 \<in> set (BlockChildren ?R split_b1 (fc_slot split_state))
      \<and> VoteCount ?R split_b4 split_state split_votes = Inr 64000000000
      \<and> (\<forall>c \<in> set (BlockChildren ?R split_b1 (fc_slot split_state)). c \<noteq> split_b4 \<longrightarrow>
            (\<exists>m. VoteCount ?R c split_state split_votes = Inr m \<and> m < 64000000000))"
    by (simp add: BlockChildren_def ancestor_walk.simps block_by_root_def defs)
  have win1: "diff_b3 \<in> set (BlockChildren diff_store diff_b1 (fc_slot split_state))
      \<and> VoteCount diff_store diff_b3 split_state diff_votes = Inr 64000000000
      \<and> (\<forall>c \<in> set (BlockChildren diff_store diff_b1 (fc_slot split_state)). c \<noteq> diff_b3 \<longrightarrow>
            (\<exists>m. VoteCount diff_store c split_state diff_votes = Inr m \<and> m < 64000000000))"
    by (simp add: BlockChildren_def ancestor_walk.simps block_by_root_def ddefs)
  have win2: "diff_b5 \<in> set (BlockChildren diff_store diff_b3 (fc_slot split_state))
      \<and> VoteCount diff_store diff_b5 split_state diff_votes = Inr 64000000000
      \<and> (\<forall>c \<in> set (BlockChildren diff_store diff_b3 (fc_slot split_state)). c \<noteq> diff_b5 \<longrightarrow>
            (\<exists>m. VoteCount diff_store c split_state diff_votes = Inr m \<and> m < 64000000000))"
    by (simp add: BlockChildren_def ancestor_walk.simps block_by_root_def ddefs)
  have leaf5: "BlockChildren diff_store diff_b5 (fc_slot split_state) = []"
    by (simp add: BlockChildren_def ddefs)
  have s1: "lmd_ghost ?S split_state split_votes split_b1
      = lmd_ghost ?S split_state split_votes split_b4"
    using win lmd_ghost_head [where store = ?S and head = split_b1 and st = split_state
        and targets = split_votes and w = split_b4 and k = 64000000000]
    by blast
  have s2: "lmd_ghost ?S split_state split_votes split_b4 = Some (Inr split_b4)"
    using leaf lmd_ghost_head [where store = ?S and head = split_b4 and st = split_state
        and targets = split_votes]
    by blast
  have run: "lmd_ghost ?S split_state split_votes split_b1 = Some (Inr split_b4)"
    using s1 s2 by simp
  obtain h where h: "lmd_ghost ?S split_state split_votes split_b1 = Some (Inr h)"
      "h \<in> set ?S" "descends ?S h (bn_root split_b1)"
    using wf nonempty lmd_ghost_head [where store = ?S and head = split_b1 and st = split_state
        and targets = split_votes]
    by blast
  have "h = split_b4" using h(1) run by simp
  then have d: "split_b4 \<in> set ?S" "descends ?S split_b4 (bn_root split_b1)"
    using h(2,3) by simp_all
  have r1: "lmd_ghost ?R split_state split_votes split_b1
      = lmd_ghost ?R split_state split_votes split_b4"
    using win_rev lmd_ghost_head [where store = ?R and head = split_b1 and st = split_state
        and targets = split_votes and w = split_b4 and k = 64000000000]
    by blast
  have r2: "lmd_ghost ?R split_state split_votes split_b4 = Some (Inr split_b4)"
    using leaf_rev lmd_ghost_head [where store = ?R and head = split_b4 and st = split_state
        and targets = split_votes]
    by blast
  have d1: "lmd_ghost diff_store split_state diff_votes diff_b1
      = lmd_ghost diff_store split_state diff_votes diff_b3"
    using win1 lmd_ghost_head [where store = diff_store and head = diff_b1 and st = split_state
        and targets = diff_votes and w = diff_b3 and k = 64000000000]
    by blast
  have d2: "lmd_ghost diff_store split_state diff_votes diff_b3
      = lmd_ghost diff_store split_state diff_votes diff_b5"
    using win2 lmd_ghost_head [where store = diff_store and head = diff_b3 and st = split_state
        and targets = diff_votes and w = diff_b5 and k = 64000000000]
    by blast
  have d3: "lmd_ghost diff_store split_state diff_votes diff_b5 = Some (Inr diff_b5)"
    using leaf5 lmd_ghost_head [where store = diff_store and head = diff_b5 and st = split_state
        and targets = diff_votes]
    by blast
  show ?thesis using run leaf d r1 r2 d1 d2 d3 by simp
qed

section \<open>Justified and finalized checkpoints\<close>

lemma last_available_Some:
  assumes "last_available chain t = Some (s, b)"
  shows "s \<le> t \<and> chain s = Some b \<and> (\<forall>s'. s < s' \<and> s' \<le> t \<longrightarrow> chain s' = None)"
  using assms
proof (induction t)
  case 0
  then show ?case by (auto split: option.splits)
next
  case (Suc t)
  show ?case
  proof (cases "chain (Suc t)")
    case None
    then have "last_available chain t = Some (s, b)" using Suc.prems by simp
    then have "s \<le> t \<and> chain s = Some b \<and> (\<forall>s'. s < s' \<and> s' \<le> t \<longrightarrow> chain s' = None)"
      by (rule Suc.IH)
    then show ?thesis using None by (auto simp: le_Suc_eq)
  next
    case (Some a)
    then show ?thesis using Suc.prems by auto
  qed
qed

lemma last_available_ge:
  assumes "chain s0 \<noteq> None" "s0 \<le> t"
  shows "\<exists>s b. last_available chain t = Some (s, b) \<and> s0 \<le> s"
  using assms
proof (induction t)
  case 0
  then show ?case by (auto split: option.splits)
next
  case (Suc t)
  show ?case
  proof (cases "chain (Suc t)")
    case None
    then have "s0 \<le> t" using Suc.prems by (cases "s0 = Suc t") auto
    then show ?thesis using Suc.IH Suc.prems(1) None by simp
  next
    case (Some a)
    then show ?thesis using Suc.prems by simp
  qed
qed

lemma epoch_lt_start:
  assumes "epoch_of spe s < e" "0 < spe"
  shows "s < start_slot spe e"
proof -
  have "s < (s div spe + 1) * spe" using assms(2)
    by (metis Suc_eq_plus1 dividend_less_div_times mult.commute mult_Suc add.commute)
  also have "\<dots> \<le> e * spe" using assms(1) by (intro mult_le_mono1) (simp add: epoch_of_def)
  finally show ?thesis by (simp add: start_slot_def)
qed

lemma resolve_checkpoint_Inr:
  assumes "resolve_checkpoint spe db e = Inr cp"
  shows "cp_slot cp \<le> start_slot spe e \<and> canonical db (cp_slot cp) = Some (cp_block cp)
       \<and> (\<forall>s'. cp_slot cp < s' \<and> s' \<le> start_slot spe e \<longrightarrow> canonical db s' = None)
       \<and> historical db (cp_slot cp) = Some (cp_state cp)"
proof -
  obtain s b where la: "last_available (canonical db) (start_slot spe e) = Some (s, b)"
    using assms by (auto simp: resolve_checkpoint_def split: option.splits)
  then obtain hs where hs: "historical db s = Some hs"
    and cp: "cp = \<lparr>cp_slot = s, cp_state = hs, cp_block = b\<rparr>"
    using assms by (auto simp: resolve_checkpoint_def split: option.splits)
  show ?thesis using last_available_Some [OF la] hs cp by simp
qed

lemma update_cases:
  assumes "updateFFGCheckPts spe db st = Inr db'"
  shows "canonical db' = canonical db \<and> historical db' = historical db
     \<and> (if epoch_of spe (cp_slot (justified db)) < current_justified_epoch st
         then resolve_checkpoint spe db (current_justified_epoch st) = Inr (justified db')
         else justified db' = justified db)
     \<and> (if epoch_of spe (cp_slot (finalized db)) < finalized_epoch st
         then resolve_checkpoint spe (db\<lparr>justified := justified db'\<rparr>) (finalized_epoch st)
                = Inr (finalized db')
         else finalized db' = finalized db)"
  using assms
  by (auto simp: updateFFGCheckPts_def split: if_splits sum.splits)

lemma resolve_checkpoint_justified [simp]:
  "resolve_checkpoint spe (db\<lparr>justified := j\<rparr>) e = resolve_checkpoint spe db e"
  by (simp add: resolve_checkpoint_def split: option.splits prod.splits)

lemma resolve_checkpoint_reaches:
  assumes "resolve_checkpoint spe db e = Inr cp" "canonical db s0 \<noteq> None"
    and "s0 \<le> start_slot spe e"
  shows "s0 \<le> cp_slot cp"
proof -
  obtain s b where la: "last_available (canonical db) (start_slot spe e) = Some (s, b)"
    and ge: "s0 \<le> s"
    using last_available_ge [of "canonical db" s0 "start_slot spe e"] assms(2,3) by blast
  then show ?thesis using assms(1) by (auto simp: resolve_checkpoint_def split: option.splits)
qed

lemma stored_le_start:
  assumes "epoch_of spe s < e" "spe = 0 \<longrightarrow> s = 0"
  shows "s \<le> start_slot spe e"
proof (cases "spe = 0")
  case True
  then show ?thesis using assms(2) by simp
next
  case False
  then show ?thesis using epoch_lt_start [of spe s e] assms(1) by simp
qed

lemma resolve_checkpoint_total:
  assumes "canonical db 0 \<noteq> None" "\<forall>s. canonical db s \<noteq> None \<longrightarrow> historical db s \<noteq> None"
  shows "\<exists>cp. resolve_checkpoint spe db e = Inr cp"
proof -
  obtain s b where la: "last_available (canonical db) (start_slot spe e) = Some (s, b)"
    using last_available_ge [of "canonical db" 0 "start_slot spe e"] assms(1) by auto
  then have "canonical db s = Some b" using last_available_Some by blast
  then obtain hs where "historical db s = Some hs" using assms(2) by fastforce
  then show ?thesis using la by (simp add: resolve_checkpoint_def)
qed

lemma update_total:
  assumes "canonical db 0 \<noteq> None" "\<forall>s. canonical db s \<noteq> None \<longrightarrow> historical db s \<noteq> None"
  shows "\<exists>d. updateFFGCheckPts spe db st = Inr d"
proof -
  obtain cj where cj: "resolve_checkpoint spe db (current_justified_epoch st) = Inr cj"
    using resolve_checkpoint_total [OF assms] by blast
  obtain cf where cf: "resolve_checkpoint spe db (finalized_epoch st) = Inr cf"
    using resolve_checkpoint_total [OF assms] by blast
  show ?thesis using cj cf by (simp add: updateFFGCheckPts_def)
qed

lemma update_anchor:
  assumes "updateFFGCheckPts spe db st = Inr db'"
    and "epoch_of spe (cp_slot (finalized db)) < finalized_epoch st"
  shows "canonical db' (cp_slot (finalized db')) \<noteq> None
       \<and> (spe = 0 \<longrightarrow> cp_slot (finalized db') = 0)"
proof -
  have r: "resolve_checkpoint spe db (finalized_epoch st) = Inr (finalized db')"
    and c: "canonical db' = canonical db"
    using update_cases [OF assms(1)] assms(2) by simp_all
  show ?thesis using resolve_checkpoint_Inr [OF r] c by (auto simp: start_slot_def)
qed

lemma update_finalized_forward:
  assumes "updateFFGCheckPts spe db st = Inr db'"
    and "canonical db (cp_slot (finalized db)) \<noteq> None"
    and "spe = 0 \<longrightarrow> cp_slot (finalized db) = 0"
  shows "cp_slot (finalized db) \<le> cp_slot (finalized db')
       \<and> canonical db' (cp_slot (finalized db')) \<noteq> None
       \<and> (spe = 0 \<longrightarrow> cp_slot (finalized db') = 0)"
proof (cases "epoch_of spe (cp_slot (finalized db)) < finalized_epoch st")
  case True
  then have r: "resolve_checkpoint spe db (finalized_epoch st) = Inr (finalized db')"
    using update_cases [OF assms(1)] by simp
  have "cp_slot (finalized db) \<le> start_slot spe (finalized_epoch st)"
    using True assms(3) by (rule stored_le_start)
  then have "cp_slot (finalized db) \<le> cp_slot (finalized db')"
    using r assms(2) by (intro resolve_checkpoint_reaches)
  then show ?thesis using update_anchor [OF assms(1) True] by simp
next
  case False
  then show ?thesis using update_cases [OF assms(1)] assms(2,3) by simp
qed

lemma event_forward:
  assumes "canonical db (cp_slot (finalized db)) \<noteq> None"
    and "spe = 0 \<longrightarrow> cp_slot (finalized db) = 0"
  shows "cp_slot (finalized db) \<le> cp_slot (finalized (apply_event spe db ev))
       \<and> canonical (apply_event spe db ev) (cp_slot (finalized (apply_event spe db ev))) \<noteq> None
       \<and> (spe = 0 \<longrightarrow> cp_slot (finalized (apply_event spe db ev)) = 0)"
proof (cases ev)
  case (SaveBlock b)
  then show ?thesis using assms by simp
next
  case (SaveState s)
  then show ?thesis using assms by simp
next
  case (UpdateFFG st)
  show ?thesis
  proof (cases "updateFFGCheckPts spe db st")
    case (Inl e)
    then have ae: "apply_event spe db ev = db" using UpdateFFG by simp
    show ?thesis unfolding ae using assms by simp
  next
    case (Inr db')
    then have ae: "apply_event spe db ev = db'" using UpdateFFG by simp
    show ?thesis unfolding ae using update_finalized_forward [OF Inr assms] by simp
  qed
qed

lemma run_events_forward:
  assumes "canonical db (cp_slot (finalized db)) \<noteq> None"
    and "spe = 0 \<longrightarrow> cp_slot (finalized db) = 0"
  shows "cp_slot (finalized db) \<le> cp_slot (finalized (run_events spe db evs))"
  using assms
proof (induction evs arbitrary: db)
  case Nil
  then show ?case by (simp add: run_events_def)
next
  case (Cons ev evs)
  note f = event_forward [OF Cons.prems, of ev]
  have "cp_slot (finalized (apply_event spe db ev))
      \<le> cp_slot (finalized (run_events spe (apply_event spe db ev) evs))"
    using f by (intro Cons.IH) simp_all
  then show ?case using f by (simp add: run_events_def)
qed

lemma last_available_hit: "chain t = Some b \<Longrightarrow> last_available chain t = Some (t, b)"
  by (cases t) simp_all

lemma last_available_miss:
  "chain t = None \<Longrightarrow> 0 < t \<Longrightarrow> last_available chain t = last_available chain (t - 1)"
  by (cases t) simp_all

lemma skip_run:
  "updateFFGCheckPts 64 skip_db skip_state64
     = Inr (skip_db\<lparr>justified := \<lparr>cp_slot = 60, cp_state = skip_state60, cp_block = skip_block60\<rparr>\<rparr>)"
proof -
  have "last_available (canonical skip_db) 64 = Some (60, skip_block60)"
    by (simp add: skip_db_def last_available_hit last_available_miss)
  then have "resolve_checkpoint 64 skip_db 1
      = Inr \<lparr>cp_slot = 60, cp_state = skip_state60, cp_block = skip_block60\<rparr>"
    by (simp add: resolve_checkpoint_def start_slot_def) (simp add: skip_db_def)
  then show ?thesis
    by (simp add: updateFFGCheckPts_def epoch_of_def skip_state64_def)
       (simp add: skip_db_def)
qed

lemma fin_db_eq:
  "fin_db = skip_db\<lparr>canonical := (canonical skip_db)(64 \<mapsto> fin_block64),
                    historical := (historical skip_db)(64 \<mapsto> fin_state64)\<rparr>"
  by (simp add: fin_db_def run_events_def fin_block64_def fin_state64_def)

lemma fin_run:
  "updateFFGCheckPts 64 fin_db fin_state64
     = Inr (fin_db\<lparr>finalized := \<lparr>cp_slot = 64, cp_state = fin_state64, cp_block = fin_block64\<rparr>\<rparr>)"
proof -
  have "last_available (canonical fin_db) 64 = Some (64, fin_block64)"
    by (simp add: fin_db_eq last_available_hit)
  then have "resolve_checkpoint 64 fin_db 1
      = Inr \<lparr>cp_slot = 64, cp_state = fin_state64, cp_block = fin_block64\<rparr>"
    by (simp add: resolve_checkpoint_def start_slot_def) (simp add: fin_db_eq)
  then show ?thesis
    by (simp add: updateFFGCheckPts_def epoch_of_def fin_state64_def)
       (simp add: fin_db_eq skip_db_def)
qed

text \<open>
  Claim C4 (checkpoint monotonicity and skip slots). A call of \<open>updateFFGCheckPts\<close> whose
  state's current justified and finalized epochs do not exceed the epochs of the stored
  checkpoints returns the store as it was. On a store with a genesis block and a saved
  state for every block of the canonical chain the call returns. A call that returns
  leaves the justified (finalized) checkpoint as it was unless the state's current
  justified (finalized) epoch exceeds the epoch of the stored checkpoint; a checkpoint it
  overwrites is the last available block of the canonical chain at or before the epoch's
  start slot, every slot between that block and the start slot being a skip slot, with the
  state saved for the block's slot. Once a call has stored a finalized checkpoint, no
  sequence of later calls, in any order of states and with blocks and states saved in
  between, moves the finalized checkpoint to a lower slot or epoch.
\<close>

theorem checkpoint_monotonic:
  "(current_justified_epoch st \<le> epoch_of spe (cp_slot (justified db))
      \<and> finalized_epoch st \<le> epoch_of spe (cp_slot (finalized db)) \<longrightarrow>
      updateFFGCheckPts spe db st = Inr db)
   \<and> (canonical db 0 \<noteq> None \<and> (\<forall>s. canonical db s \<noteq> None \<longrightarrow> historical db s \<noteq> None) \<longrightarrow>
        (\<exists>d. updateFFGCheckPts spe db st = Inr d))
   \<and> (updateFFGCheckPts spe db st = Inr db' \<longrightarrow>
      (current_justified_epoch st \<le> epoch_of spe (cp_slot (justified db)) \<longrightarrow>
         justified db' = justified db)
    \<and> (finalized_epoch st \<le> epoch_of spe (cp_slot (finalized db)) \<longrightarrow>
         finalized db' = finalized db)
    \<and> (epoch_of spe (cp_slot (justified db)) < current_justified_epoch st \<longrightarrow>
         cp_slot (justified db') \<le> start_slot spe (current_justified_epoch st)
       \<and> canonical db (cp_slot (justified db')) = Some (cp_block (justified db'))
       \<and> historical db (cp_slot (justified db')) = Some (cp_state (justified db'))
       \<and> (\<forall>s. cp_slot (justified db') < s \<and> s \<le> start_slot spe (current_justified_epoch st)
              \<longrightarrow> canonical db s = None))
    \<and> (epoch_of spe (cp_slot (finalized db)) < finalized_epoch st \<longrightarrow>
         cp_slot (finalized db') \<le> start_slot spe (finalized_epoch st)
       \<and> canonical db (cp_slot (finalized db')) = Some (cp_block (finalized db'))
       \<and> historical db (cp_slot (finalized db')) = Some (cp_state (finalized db'))
       \<and> (\<forall>s. cp_slot (finalized db') < s \<and> s \<le> start_slot spe (finalized_epoch st)
              \<longrightarrow> canonical db s = None)))
   \<and> (updateFFGCheckPts spe db st = Inr db'
        \<and> epoch_of spe (cp_slot (finalized db)) < finalized_epoch st \<longrightarrow>
        cp_slot (finalized db') \<le> cp_slot (finalized (run_events spe db' evs))
      \<and> epoch_of spe (cp_slot (finalized db'))
           \<le> epoch_of spe (cp_slot (finalized (run_events spe db' evs))))"
proof (intro conjI impI)
  assume "current_justified_epoch st \<le> epoch_of spe (cp_slot (justified db))
      \<and> finalized_epoch st \<le> epoch_of spe (cp_slot (finalized db))"
  then show "updateFFGCheckPts spe db st = Inr db"
    by (simp add: updateFFGCheckPts_def)
next
  assume "canonical db 0 \<noteq> None \<and> (\<forall>s. canonical db s \<noteq> None \<longrightarrow> historical db s \<noteq> None)"
  then show "\<exists>d. updateFFGCheckPts spe db st = Inr d"
    using update_total [of db spe st] by blast
next
  assume u: "updateFFGCheckPts spe db st = Inr db'"
  note uc = update_cases [OF u]
  show "justified db' = justified db"
    if "current_justified_epoch st \<le> epoch_of spe (cp_slot (justified db))"
    using uc that by simp
  show "finalized db' = finalized db"
    if "finalized_epoch st \<le> epoch_of spe (cp_slot (finalized db))"
    using uc that by simp
  {
    assume j: "epoch_of spe (cp_slot (justified db)) < current_justified_epoch st"
    then have r: "resolve_checkpoint spe db (current_justified_epoch st) = Inr (justified db')"
      using uc by simp
    note p = resolve_checkpoint_Inr [OF r]
    show "cp_slot (justified db') \<le> start_slot spe (current_justified_epoch st)"
      and "canonical db (cp_slot (justified db')) = Some (cp_block (justified db'))"
      and "historical db (cp_slot (justified db')) = Some (cp_state (justified db'))"
      and "\<forall>s. cp_slot (justified db') < s \<and> s \<le> start_slot spe (current_justified_epoch st)
              \<longrightarrow> canonical db s = None"
      using p by simp_all
  }
  {
    assume f: "epoch_of spe (cp_slot (finalized db)) < finalized_epoch st"
    then have r: "resolve_checkpoint spe db (finalized_epoch st) = Inr (finalized db')"
      using uc by simp
    note p = resolve_checkpoint_Inr [OF r]
    show "cp_slot (finalized db') \<le> start_slot spe (finalized_epoch st)"
      and "canonical db (cp_slot (finalized db')) = Some (cp_block (finalized db'))"
      and "historical db (cp_slot (finalized db')) = Some (cp_state (finalized db'))"
      and "\<forall>s. cp_slot (finalized db') < s \<and> s \<le> start_slot spe (finalized_epoch st)
              \<longrightarrow> canonical db s = None"
      using p by simp_all
  }
next
  assume a: "updateFFGCheckPts spe db st = Inr db'
        \<and> epoch_of spe (cp_slot (finalized db)) < finalized_epoch st"
  then have "canonical db' (cp_slot (finalized db')) \<noteq> None"
    "spe = 0 \<longrightarrow> cp_slot (finalized db') = 0"
    using update_anchor [of spe db st db'] by simp_all
  then show le: "cp_slot (finalized db') \<le> cp_slot (finalized (run_events spe db' evs))"
    by (rule run_events_forward)
  then show "epoch_of spe (cp_slot (finalized db'))
           \<le> epoch_of spe (cp_slot (finalized (run_events spe db' evs)))"
    by (simp add: epoch_of_def div_le_mono)
qed

theorem checkpoint_monotonic_witness:
  "updateFFGCheckPts 64 skip_db skip_state64
     = Inr (skip_db\<lparr>justified := \<lparr>cp_slot = 60, cp_state = skip_state60, cp_block = skip_block60\<rparr>\<rparr>)
   \<and> canonical skip_db 60 = Some skip_block60
   \<and> canonical skip_db 61 = None \<and> canonical skip_db 62 = None
   \<and> canonical skip_db 63 = None \<and> canonical skip_db 64 = None
   \<and> (\<exists>d. updateFFGCheckPts 64 skip_db skip_state0 = Inr d)
   \<and> updateFFGCheckPts 64 fin_db fin_state64
       = Inr (fin_db\<lparr>finalized := \<lparr>cp_slot = 64, cp_state = fin_state64, cp_block = fin_block64\<rparr>\<rparr>)
   \<and> epoch_of 64 (cp_slot (finalized fin_db)) = 0
   \<and> epoch_of 64 (cp_slot (finalized
         (fin_db\<lparr>finalized := \<lparr>cp_slot = 64, cp_state = fin_state64, cp_block = fin_block64\<rparr>\<rparr>))) = 1
   \<and> updateFFGCheckPts 64
         (fin_db\<lparr>finalized := \<lparr>cp_slot = 64, cp_state = fin_state64, cp_block = fin_block64\<rparr>\<rparr>)
         skip_state0
       = Inr (fin_db\<lparr>finalized := \<lparr>cp_slot = 64, cp_state = fin_state64, cp_block = fin_block64\<rparr>\<rparr>)
   \<and> cp_slot (finalized (run_events 64
         (fin_db\<lparr>finalized := \<lparr>cp_slot = 64, cp_state = fin_state64, cp_block = fin_block64\<rparr>\<rparr>)
         [UpdateFFG skip_state0, SaveBlock fin_block100, SaveState fin_state100,
          UpdateFFG fin_state128, UpdateFFG fin_state64])) = 100
   \<and> 1 \<le> epoch_of 64 (cp_slot (finalized (run_events 64
         (fin_db\<lparr>finalized := \<lparr>cp_slot = 64, cp_state = fin_state64, cp_block = fin_block64\<rparr>\<rparr>)
         [UpdateFFG skip_state0, SaveBlock fin_block100, SaveState fin_state100,
          UpdateFFG fin_state128, UpdateFFG fin_state64])))"
proof -
  let ?j = "skip_db\<lparr>justified := \<lparr>cp_slot = 60, cp_state = skip_state60, cp_block = skip_block60\<rparr>\<rparr>"
  let ?f = "fin_db\<lparr>finalized := \<lparr>cp_slot = 64, cp_state = fin_state64, cp_block = fin_block64\<rparr>\<rparr>"
  let ?evs = "[UpdateFFG skip_state0, SaveBlock fin_block100, SaveState fin_state100,
          UpdateFFG fin_state128, UpdateFFG fin_state64]"
  have h: "epoch_of 64 (cp_slot (justified skip_db)) < current_justified_epoch skip_state64"
    "finalized_epoch skip_state64 \<le> epoch_of 64 (cp_slot (finalized skip_db))"
    "start_slot 64 (current_justified_epoch skip_state64) = 64"
    by (simp_all add: skip_db_def skip_state64_def epoch_of_def start_slot_def)
  have skip: "canonical skip_db 60 = Some skip_block60
      \<and> (\<forall>s. 60 < s \<and> s \<le> 64 \<longrightarrow> canonical skip_db s = None)"
    using skip_run h
      checkpoint_monotonic [where spe = 64 and db = skip_db and st = skip_state64 and db' = ?j]
    by simp
  have store: "canonical skip_db 0 \<noteq> None
      \<and> (\<forall>s. canonical skip_db s \<noteq> None \<longrightarrow> historical skip_db s \<noteq> None)"
    by (simp add: skip_db_def)
  have returns: "\<exists>d. updateFFGCheckPts 64 skip_db skip_state0 = Inr d"
    using store checkpoint_monotonic [where spe = 64 and db = skip_db and st = skip_state0]
    by blast
  have e0: "epoch_of 64 (cp_slot (finalized fin_db)) = 0"
    by (simp add: fin_db_eq skip_db_def epoch_of_def)
  have e1: "epoch_of 64 (cp_slot (finalized ?f)) = 1"
    by (simp add: epoch_of_def)
  have stored: "updateFFGCheckPts 64 fin_db fin_state64 = Inr ?f
      \<and> epoch_of 64 (cp_slot (finalized fin_db)) < finalized_epoch fin_state64"
    using fin_run e0 by (simp add: fin_state64_def)
  have old: "current_justified_epoch skip_state0 \<le> epoch_of 64 (cp_slot (justified ?f))
      \<and> finalized_epoch skip_state0 \<le> epoch_of 64 (cp_slot (finalized ?f))"
    by (simp add: skip_state0_def)
  have same: "updateFFGCheckPts 64 ?f skip_state0 = Inr ?f"
    using old checkpoint_monotonic [where spe = 64 and db = ?f and st = skip_state0]
    by blast
  have run: "cp_slot (finalized (run_events 64 ?f ?evs)) = 100"
    by (simp add: run_events_def updateFFGCheckPts_def resolve_checkpoint_def epoch_of_def
        start_slot_def last_available_hit last_available_miss fin_db_eq skip_db_def
        skip_state0_def fin_state64_def fin_block100_def fin_state100_def fin_state128_def)
  have forward: "epoch_of 64 (cp_slot (finalized ?f))
      \<le> epoch_of 64 (cp_slot (finalized (run_events 64 ?f ?evs)))"
    using stored
      checkpoint_monotonic [where spe = 64 and db = fin_db and st = fin_state64 and db' = ?f
        and evs = ?evs]
    by blast
  show ?thesis
    using skip_run skip returns fin_run e0 e1 same run forward by simp
qed

end
